theory Spec2Isabelle
  imports Complex_Main "HOL-Library.Word" "HOL-Library.Extended_Nat"
begin

unbundle bit_operations_syntax

section \<open>Errors\<close>

text \<open>
  Every \<open>throw\<close> of the bundle is a value of this type; a function that can throw
  returns \<open>error + 'a\<close> with \<open>Inl\<close> for the exception.
\<close>

datatype error =
    IllegalLog int
  | IllegalMode
  | IllegalVersion int
  | IllegalChar
  | IllegalMask
  | DataOverflow int int
  | CantRead int
  | InvalidNumeric
  | InvalidModuleSize
  | TypeError

section \<open>Encoder: the stored version\<close>

text \<open>
  \<open>version >>> 0\<close> is the conversion of a number to an unsigned 32-bit integer; on an
  integer-valued number it is the residue modulo \<open>2 ^ 32\<close>.
\<close>

definition toUint32 :: "int \<Rightarrow> int" where
  "toUint32 v = v mod 2 ^ 32"

text \<open>The two fields of the encoder object that \<open>setVersion\<close> writes.\<close>

record VersionState =
  version :: int
  autoVersion :: bool

definition setVersion :: "int \<Rightarrow> 'a VersionState_scheme \<Rightarrow> 'a VersionState_scheme" where
  "setVersion v q =
     (let q1 = q\<lparr>version := min 40 (max 0 (toUint32 v))\<rparr>
      in q1\<lparr>autoVersion := (version q1 = 0)\<rparr>)"

section \<open>Kanji mode: the 13-bit value of a two-byte code\<close>

text \<open>
  The body of the loop of \<open>QRKanji.prototype.write\<close> for one pair of bytes: the code is
  assembled from the two bytes, reduced by one of the two offsets, and packed as
  \<open>high * 0xC0 + low\<close>; a code outside both ranges throws.
\<close>

definition kanjiCode :: "nat \<Rightarrow> nat \<Rightarrow> nat" where
  "kanjiCode b0 b1 = push_bit 8 (255 AND b0) OR (255 AND b1)"

definition kanjiPack :: "nat \<Rightarrow> error + nat" where
  "kanjiPack code =
     (if 0x8140 \<le> code \<and> code \<le> 0x9ffc then
        (let c = code - 0x8140 in Inr ((drop_bit 8 c AND 255) * 0xc0 + (c AND 255)))
      else if 0xe040 \<le> code \<and> code \<le> 0xebbf then
        (let c = code - 0xc140 in Inr ((drop_bit 8 c AND 255) * 0xc0 + (c AND 255)))
      else Inl IllegalChar)"

text \<open>
  The body of the loop of \<open>decodeKanji\<close> for one 13-bit value \<open>k\<close>: the code \<open>c\<close> it
  rebuilds, and the two bytes pushed for it.
\<close>

definition kanjiUnpack :: "nat \<Rightarrow> nat" where
  "kanjiUnpack k =
     (let c = push_bit 8 (k div 0xc0) OR (k mod 0xc0)
      in if c < 0x1f00 then c + 0x8140 else c + 0xc140)"

definition kanjiBytes :: "nat \<Rightarrow> nat list" where
  "kanjiBytes k = (let c = kanjiUnpack k in [drop_bit 8 c, c AND 255])"

section \<open>Locator: the symbol dimension\<close>

text \<open>
  \<open>computeDimension\<close> after the module size has been measured. The three arguments are
  the module size and the two distances \<open>distance(topLeft, topRight)\<close> and
  \<open>distance(topLeft, bottomLeft)\<close>; the double-precision quotients are read as real
  numbers, \<open>Math.round\<close> is \<open>round\<close> (half rounds up), and the rest is integer
  arithmetic on the two rounded values.
\<close>

definition snapDimension :: "int \<Rightarrow> int \<Rightarrow> int" where
  "snapDimension topDimension sideDimension =
     (let dimension = (topDimension + sideDimension) div 2 + 7
      in if dimension mod 4 = 0 then dimension + 1
         else if dimension mod 4 = 2 then dimension - 1
         else dimension)"

definition computeDimension :: "real \<Rightarrow> real \<Rightarrow> real \<Rightarrow> error + int" where
  "computeDimension moduleSize dTop dSide =
     (if moduleSize < 1 then Inl InvalidModuleSize
      else Inr (snapDimension (round (dTop / moduleSize)) (round (dSide / moduleSize))))"

section \<open>Decoder: format information\<close>

text \<open>
  \<open>BitMatrix\<close>: a flat array of 0/1 cells with its width and height; \<open>get\<close> is false
  outside the matrix, and a missing cell (\<open>undefined\<close>) is false as well.
\<close>

record BitMatrix =
  data :: "nat list"
  width :: nat
  height :: nat

definition get :: "BitMatrix \<Rightarrow> int \<Rightarrow> int \<Rightarrow> bool" where
  "get m x y =
     (if x < 0 \<or> x \<ge> int (width m) \<or> y < 0 \<or> y \<ge> int (height m) then False
      else (let i = nat (y * int (width m) + x)
            in i < length (data m) \<and> data m ! i \<noteq> 0))"

text \<open>
  \<open>numBitsDiffering\<close>: the loop clears the lowest set bit of \<open>z = x ^ y\<close> until
  nothing is left. The arguments are values of up to 18 bits pushed together by
  \<open>pushBit\<close>, so the 32-bit operations are those of the naturals.
\<close>

lemma nat_and_le_right: "(m::nat) AND n \<le> n"
proof -
  have "int m AND int n \<le> int n" by (rule AND_upper2) simp
  then have "int (m AND n) \<le> int n" by (simp add: of_nat_and_eq)
  then show ?thesis by simp
qed

function countBits :: "nat \<Rightarrow> nat \<Rightarrow> nat" where
  "countBits z bitCount =
     (if z = 0 then bitCount else countBits (z AND (z - 1)) (bitCount + 1))"
  by pat_completeness auto
termination
proof (relation "measure fst")
  show "wf (measure fst)" by simp
next
  fix z bitCount :: nat
  assume "z \<noteq> 0"
  have "z AND (z - 1) \<le> z - 1" by (rule nat_and_le_right)
  with \<open>z \<noteq> 0\<close> show "((z AND (z - 1), bitCount + 1), (z, bitCount)) \<in> measure fst" by simp
qed

declare countBits.simps [simp del]

definition numBitsDiffering :: "nat \<Rightarrow> nat \<Rightarrow> nat" where
  "numBitsDiffering x y = countBits (x XOR y) 0"

definition pushBit :: "bool \<Rightarrow> nat \<Rightarrow> nat" where
  "pushBit b byte = push_bit 1 byte OR of_bool b"

record FormatInfo =
  errorCorrectionLevel :: nat
  dataMask :: nat

definition FORMAT_INFO_TABLE :: "(nat \<times> FormatInfo) list" where
  "FORMAT_INFO_TABLE =
    [(0x5412, \<lparr>errorCorrectionLevel = 1, dataMask = 0\<rparr>),
     (0x5125, \<lparr>errorCorrectionLevel = 1, dataMask = 1\<rparr>),
     (0x5e7c, \<lparr>errorCorrectionLevel = 1, dataMask = 2\<rparr>),
     (0x5b4b, \<lparr>errorCorrectionLevel = 1, dataMask = 3\<rparr>),
     (0x45f9, \<lparr>errorCorrectionLevel = 1, dataMask = 4\<rparr>),
     (0x40ce, \<lparr>errorCorrectionLevel = 1, dataMask = 5\<rparr>),
     (0x4f97, \<lparr>errorCorrectionLevel = 1, dataMask = 6\<rparr>),
     (0x4aa0, \<lparr>errorCorrectionLevel = 1, dataMask = 7\<rparr>),
     (0x77c4, \<lparr>errorCorrectionLevel = 0, dataMask = 0\<rparr>),
     (0x72f3, \<lparr>errorCorrectionLevel = 0, dataMask = 1\<rparr>),
     (0x7daa, \<lparr>errorCorrectionLevel = 0, dataMask = 2\<rparr>),
     (0x789d, \<lparr>errorCorrectionLevel = 0, dataMask = 3\<rparr>),
     (0x662f, \<lparr>errorCorrectionLevel = 0, dataMask = 4\<rparr>),
     (0x6318, \<lparr>errorCorrectionLevel = 0, dataMask = 5\<rparr>),
     (0x6c41, \<lparr>errorCorrectionLevel = 0, dataMask = 6\<rparr>),
     (0x6976, \<lparr>errorCorrectionLevel = 0, dataMask = 7\<rparr>),
     (0x1689, \<lparr>errorCorrectionLevel = 3, dataMask = 0\<rparr>),
     (0x13be, \<lparr>errorCorrectionLevel = 3, dataMask = 1\<rparr>),
     (0x1ce7, \<lparr>errorCorrectionLevel = 3, dataMask = 2\<rparr>),
     (0x19d0, \<lparr>errorCorrectionLevel = 3, dataMask = 3\<rparr>),
     (0x0762, \<lparr>errorCorrectionLevel = 3, dataMask = 4\<rparr>),
     (0x0255, \<lparr>errorCorrectionLevel = 3, dataMask = 5\<rparr>),
     (0x0d0c, \<lparr>errorCorrectionLevel = 3, dataMask = 6\<rparr>),
     (0x083b, \<lparr>errorCorrectionLevel = 3, dataMask = 7\<rparr>),
     (0x355f, \<lparr>errorCorrectionLevel = 2, dataMask = 0\<rparr>),
     (0x3068, \<lparr>errorCorrectionLevel = 2, dataMask = 1\<rparr>),
     (0x3f31, \<lparr>errorCorrectionLevel = 2, dataMask = 2\<rparr>),
     (0x3a06, \<lparr>errorCorrectionLevel = 2, dataMask = 3\<rparr>),
     (0x24b4, \<lparr>errorCorrectionLevel = 2, dataMask = 4\<rparr>),
     (0x2183, \<lparr>errorCorrectionLevel = 2, dataMask = 5\<rparr>),
     (0x2eda, \<lparr>errorCorrectionLevel = 2, dataMask = 6\<rparr>),
     (0x2bed, \<lparr>errorCorrectionLevel = 2, dataMask = 7\<rparr>)]"

text \<open>
  The two copies of the format information read by \<open>readFormatInformation\<close>: around
  the top-left finder (column 6 and row 6 carry the timing pattern and are skipped), and
  split between the bottom-left and the top-right finder.
\<close>

definition topLeftFormatInfoBits :: "BitMatrix \<Rightarrow> nat" where
  "topLeftFormatInfoBits m =
     foldl (\<lambda>acc y. if y \<noteq> 6 then pushBit (get m 8 y) acc else acc)
       (foldl (\<lambda>acc x. if x \<noteq> 6 then pushBit (get m x 8) acc else acc) 0 [0..8])
       (rev [0..7])"

definition topRightBottomRightFormatInfoBits :: "BitMatrix \<Rightarrow> nat" where
  "topRightBottomRightFormatInfoBits m =
     (let dimension = int (height m)
      in foldl (\<lambda>acc x. pushBit (get m x 8) acc)
           (foldl (\<lambda>acc y. pushBit (get m 8 y) acc) 0 (rev [dimension - 7..dimension - 1]))
           [dimension - 8..dimension - 1])"

text \<open>
  The loop over the table. \<open>bestDifference\<close> starts at \<open>Infinity\<close> and
  \<open>bestFormatInfo\<close> at \<open>null\<close>; an entry equal to either copy returns at once, and
  after the loop the best entry is returned when it is within 3 bits.
\<close>

fun matchFormatInfo ::
  "nat \<Rightarrow> nat \<Rightarrow> (nat \<times> FormatInfo) list \<Rightarrow> enat \<Rightarrow> FormatInfo option \<Rightarrow> FormatInfo option"
where
  "matchFormatInfo tlBits trBits [] bestDifference bestFormatInfo =
     (if bestDifference \<le> 3 then bestFormatInfo else None)"
| "matchFormatInfo tlBits trBits ((bits, formatInfo) # rest) bestDifference bestFormatInfo =
     (if bits = tlBits \<or> bits = trBits then Some formatInfo
      else
        (let difference = numBitsDiffering tlBits bits;
             (bestFormatInfo, bestDifference) =
               (if enat difference < bestDifference then (Some formatInfo, enat difference)
                else (bestFormatInfo, bestDifference));
             (bestFormatInfo, bestDifference) =
               (if tlBits \<noteq> trBits then
                  (let difference = numBitsDiffering trBits bits
                   in if enat difference < bestDifference then (Some formatInfo, enat difference)
                      else (bestFormatInfo, bestDifference))
                else (bestFormatInfo, bestDifference))
         in matchFormatInfo tlBits trBits rest bestDifference bestFormatInfo))"

definition readFormatInformation :: "BitMatrix \<Rightarrow> FormatInfo option" where
  "readFormatInformation m =
     matchFormatInfo (topLeftFormatInfoBits m) (topRightBottomRightFormatInfoBits m)
       FORMAT_INFO_TABLE \<infinity> None"

text \<open>
  Flipping the bits of a value at the listed positions: the corruption of a stored copy.
\<close>

definition flipBits :: "nat \<Rightarrow> nat list \<Rightarrow> nat" where
  "flipBits v ps = fold (\<lambda>p x. x XOR 2 ^ p) ps v"

section \<open>Decoder: the bit stream\<close>

text \<open>
  \<open>BitStream\<close>: the byte array (a \<open>Uint8ClampedArray\<close>, so every element is below 256)
  and the read position. A new stream has both offsets 0.
\<close>

record BitStream =
  bytes :: "nat list"
  byteOffset :: int
  bitOffset :: int

definition newBitStream :: "nat list \<Rightarrow> BitStream" where
  "newBitStream bs = \<lparr>bytes = bs, byteOffset = 0, bitOffset = 0\<rparr>"

definition available :: "BitStream \<Rightarrow> int" where
  "available s = 8 * (int (length (bytes s)) - byteOffset s) - bitOffset s"

text \<open>An element read for a bitwise operation; an absent element (\<open>undefined\<close>) is 0 there.\<close>

definition byteAt :: "nat list \<Rightarrow> int \<Rightarrow> 32 word" where
  "byteAt bs i = (if 0 \<le> i \<and> i < int (length bs) then word_of_nat (bs ! nat i) else 0)"

text \<open>The \<open>while (numBits >= 8)\<close> loop of \<open>readBits\<close>: whole bytes.\<close>

function readWhole :: "nat list \<Rightarrow> int \<Rightarrow> int \<Rightarrow> 32 word \<Rightarrow> 32 word \<times> int \<times> int" where
  "readWhole bs byteOff numBits result =
     (if numBits \<ge> 8 then
        readWhole bs (byteOff + 1) (numBits - 8) (push_bit 8 result OR (byteAt bs byteOff AND 0xff))
      else (result, byteOff, numBits))"
  by pat_completeness auto
termination
  by (relation "measure (\<lambda>(bs, byteOff, numBits, result). nat numBits)") auto

declare readWhole.simps [simp del]

text \<open>
  \<open>readBits\<close>. The result is built with 32-bit shifts and ors, and returned as the
  signed value of the 32-bit word. The shift counts lie between 0 and 8 whenever the bit
  offset lies between 0 and 7, which \<open>readBits\<close> maintains (\<open>readBits_bitOffset\<close>).
\<close>

definition readBits :: "int \<Rightarrow> BitStream \<Rightarrow> error + (int \<times> BitStream)" where
  "readBits numBits s =
     (if numBits < 1 \<or> numBits > 32 \<or> numBits > available s then Inl (CantRead numBits)
      else
        (let (result, numBits, s) =
               (if bitOffset s > 0 then
                  (let bitsLeft = 8 - bitOffset s;
                       toRead = (if numBits < bitsLeft then numBits else bitsLeft);
                       bitsToNotRead = bitsLeft - toRead;
                       mask = push_bit (nat bitsToNotRead) (drop_bit (nat (8 - toRead)) (0xff :: 32 word));
                       result = drop_bit (nat bitsToNotRead) (byteAt (bytes s) (byteOffset s) AND mask);
                       s = s\<lparr>bitOffset := bitOffset s + toRead\<rparr>;
                       s = (if bitOffset s = 8
                            then s\<lparr>bitOffset := 0, byteOffset := byteOffset s + 1\<rparr> else s)
                   in (result, numBits - toRead, s))
                else (0, numBits, s));
             (result, s) =
               (if numBits > 0 then
                  (let (result, byteOff, numBits) = readWhole (bytes s) (byteOffset s) numBits result;
                       s = s\<lparr>byteOffset := byteOff\<rparr>
                   in if numBits > 0 then
                        (let bitsToNotRead = 8 - numBits;
                             mask = push_bit (nat bitsToNotRead) (drop_bit (nat bitsToNotRead) (0xff :: 32 word));
                             result = push_bit (nat numBits) result
                                      OR drop_bit (nat bitsToNotRead) (byteAt (bytes s) (byteOffset s) AND mask)
                         in (result, s\<lparr>bitOffset := bitOffset s + numBits\<rparr>))
                      else (result, s))
                else (result, s))
         in Inr (sint result, s)))"

lemma readWhole_offsets:
  "readWhole bs byteOff numBits result = (r, b, n) \<Longrightarrow>
     8 * b + n = 8 * byteOff + numBits \<and> n \<le> numBits \<and> (0 \<le> numBits \<longrightarrow> 0 \<le> n) \<and> n < 8"
proof (induction bs byteOff numBits result rule: readWhole.induct)
  case (1 bs byteOff numBits result)
  show ?case
  proof (cases "numBits \<ge> 8")
    case True
    with 1 show ?thesis by (simp add: readWhole.simps [of bs byteOff numBits result])
  next
    case False
    with 1 show ?thesis by (simp add: readWhole.simps [of bs byteOff numBits result])
  qed
qed

text \<open>A successful read takes exactly the bits asked for and keeps the byte array.\<close>

lemma readBits_available:
  assumes "readBits numBits s = Inr (v, s')"
  shows "available s' = available s - numBits \<and> 1 \<le> numBits \<and> bytes s' = bytes s"
proof -
  from assms have ok: "1 \<le> numBits" "numBits \<le> available s"
    by (auto simp add: readBits_def split: if_splits)
  define toRead where
    "toRead = (if numBits < 8 - bitOffset s then numBits else 8 - bitOffset s)"
  define s1 where "s1 = (if bitOffset s > 0 then
      (let t = s\<lparr>bitOffset := bitOffset s + toRead\<rparr>
       in if bitOffset t = 8 then t\<lparr>bitOffset := 0, byteOffset := byteOffset t + 1\<rparr> else t)
     else s)"
  define n1 where "n1 = (if bitOffset s > 0 then numBits - toRead else numBits)"
  have a1: "available s1 = available s - (numBits - n1) \<and> bytes s1 = bytes s"
    by (auto simp add: s1_def n1_def available_def Let_def)
  obtain r b n where rw: "readWhole (bytes s1) (byteOffset s1) n1
      (if bitOffset s > 0
       then drop_bit (nat (8 - bitOffset s - toRead))
             (byteAt (bytes s) (byteOffset s)
              AND push_bit (nat (8 - bitOffset s - toRead)) (drop_bit (nat (8 - toRead)) 0xff))
       else 0) = (r, b, n)"
    by (cases "readWhole (bytes s1) (byteOffset s1) n1
      (if bitOffset s > 0
       then drop_bit (nat (8 - bitOffset s - toRead))
             (byteAt (bytes s) (byteOffset s)
              AND push_bit (nat (8 - bitOffset s - toRead)) (drop_bit (nat (8 - toRead)) 0xff))
       else 0)") auto
  from readWhole_offsets [OF rw]
  have off: "8 * b + n = 8 * byteOffset s1 + n1" "0 \<le> n1 \<longrightarrow> 0 \<le> n" by simp_all
  define s2 where "s2 = (if n1 > 0 then
       (if n > 0 then s1\<lparr>byteOffset := b, bitOffset := bitOffset s1 + n\<rparr>
        else s1\<lparr>byteOffset := b\<rparr>)
     else s1)"
  have s': "s' = s2"
    using assms ok rw
    by (auto simp add: readBits_def Let_def s2_def s1_def n1_def toRead_def split: if_splits)
  have "available s2 = available s1 - n1 \<and> bytes s2 = bytes s1"
  proof (cases "n1 > 0")
    case True
    with off have "0 \<le> n" by simp
    with True off(1) show ?thesis by (auto simp add: s2_def available_def)
  next
    case False
    have "0 \<le> n1" using ok by (auto simp add: n1_def toRead_def)
    with False have "n1 = 0" by simp
    then show ?thesis by (simp add: s2_def)
  qed
  with a1 s' ok show ?thesis by simp
qed

lemma readBits_underflow:
  "available s < numBits \<Longrightarrow> readBits numBits s = Inl (CantRead numBits)"
  by (simp add: readBits_def)

section \<open>Decoder: segments\<close>

datatype Chunk =
    ECIChunk int
  | NumericChunk "nat list"
  | AlphanumericChunk "nat list"
  | StructuredAppendChunk int int int
  | ByteChunk "nat list" "nat list"
  | KanjiChunk "nat list" "nat list"

text \<open>
  The result object of \<open>decode$1\<close>. A string is the list of its UTF-16 code units; a
  chunk carries its text, and for Byte and Kanji its bytes before the text.
\<close>

record DecodedQR =
  resultText :: "nat list"
  resultBytes :: "nat list"
  chunks :: "Chunk list"

subsection \<open>Numeric\<close>

function decodeNumericLoop ::
  "int \<Rightarrow> BitStream \<Rightarrow> nat list \<Rightarrow> error + (int \<times> BitStream \<times> nat list)" where
  "decodeNumericLoop len s bs =
     (if len \<ge> 3 then
        (case readBits 10 s of
           Inl e \<Rightarrow> Inl e
         | Inr (num, s') \<Rightarrow>
             if num \<ge> 1000 then Inl InvalidNumeric
             else (let a = num div 100; b = (num div 10) mod 10; c = num mod 10
                   in decodeNumericLoop (len - 3) s'
                        (bs @ [nat (48 + a), nat (48 + b), nat (48 + c)])))
      else Inr (len, s, bs))"
  by pat_completeness auto
termination
  by (relation "measure (\<lambda>(len, s, bs). nat len)") auto

declare decodeNumericLoop.simps [simp del]

text \<open>The digits are pushed as bytes and appended as text: both are the same codes.\<close>

definition decodeNumeric :: "nat \<Rightarrow> BitStream \<Rightarrow> error + (nat list \<times> nat list \<times> BitStream)" where
  "decodeNumeric sz s =
     (case readBits ([10, 12, 14] ! sz) s of
        Inl e \<Rightarrow> Inl e
      | Inr (len, s1) \<Rightarrow>
          (case decodeNumericLoop len s1 [] of
             Inl e \<Rightarrow> Inl e
           | Inr (len, s2, bs) \<Rightarrow>
               if len = 2 then
                 (case readBits 7 s2 of
                    Inl e \<Rightarrow> Inl e
                  | Inr (num, s3) \<Rightarrow>
                      if num \<ge> 100 then Inl InvalidNumeric
                      else (let a = num div 10; b = num mod 10;
                                bs = bs @ [nat (48 + a), nat (48 + b)]
                            in Inr (bs, bs, s3)))
               else if len = 1 then
                 (case readBits 4 s2 of
                    Inl e \<Rightarrow> Inl e
                  | Inr (num, s3) \<Rightarrow>
                      if num \<ge> 10 then Inl InvalidNumeric
                      else (let bs = bs @ [nat (48 + num)] in Inr (bs, bs, s3)))
               else Inr (bs, bs, s2)))"

subsection \<open>Alphanumeric\<close>

definition AlphanumericCharacterCodes :: "nat list" where
  "AlphanumericCharacterCodes =
     map of_char ''0123456789ABCDEFGHIJKLMNOPQRSTUVWXYZ $%*+-./:''"

text \<open>
  \<open>AlphanumericCharacterCodes[a].charCodeAt(0)\<close>: beyond the 45 entries the element is
  \<open>undefined\<close> and the method call throws a \<open>TypeError\<close>.
\<close>

definition alphanumericCode :: "int \<Rightarrow> error + nat" where
  "alphanumericCode a =
     (if 0 \<le> a \<and> a < int (length AlphanumericCharacterCodes)
      then Inr (AlphanumericCharacterCodes ! nat a) else Inl TypeError)"

function decodeAlphanumericLoop ::
  "int \<Rightarrow> BitStream \<Rightarrow> nat list \<Rightarrow> error + (int \<times> BitStream \<times> nat list)" where
  "decodeAlphanumericLoop len s bs =
     (if len \<ge> 2 then
        (case readBits 11 s of
           Inl e \<Rightarrow> Inl e
         | Inr (v, s') \<Rightarrow>
             (case alphanumericCode (v div 45) of
                Inl e \<Rightarrow> Inl e
              | Inr ca \<Rightarrow>
                  (case alphanumericCode (v mod 45) of
                     Inl e \<Rightarrow> Inl e
                   | Inr cb \<Rightarrow> decodeAlphanumericLoop (len - 2) s' (bs @ [ca, cb]))))
      else Inr (len, s, bs))"
  by pat_completeness auto
termination
  by (relation "measure (\<lambda>(len, s, bs). nat len)") auto

declare decodeAlphanumericLoop.simps [simp del]

definition decodeAlphanumeric ::
  "nat \<Rightarrow> BitStream \<Rightarrow> error + (nat list \<times> nat list \<times> BitStream)" where
  "decodeAlphanumeric sz s =
     (case readBits ([9, 11, 13] ! sz) s of
        Inl e \<Rightarrow> Inl e
      | Inr (len, s1) \<Rightarrow>
          (case decodeAlphanumericLoop len s1 [] of
             Inl e \<Rightarrow> Inl e
           | Inr (len, s2, bs) \<Rightarrow>
               if len = 1 then
                 (case readBits 6 s2 of
                    Inl e \<Rightarrow> Inl e
                  | Inr (a, s3) \<Rightarrow>
                      (case alphanumericCode a of
                         Inl e \<Rightarrow> Inl e
                       | Inr ca \<Rightarrow> (let bs = bs @ [ca] in Inr (bs, bs, s3))))
               else Inr (bs, bs, s2)))"

subsection \<open>Byte\<close>

text \<open>
  \<open>bytesToUTF8\<close>, on the bytes still to be read. A byte missing at the end of the
  array is \<open>undefined\<close>, which is 0 under \<open>&\<close>; \<open>String.fromCharCode\<close> keeps the low
  16 bits of its argument.
\<close>

definition byteOr0 :: "nat list \<Rightarrow> nat \<Rightarrow> int" where
  "byteOr0 bs i = (if i < length bs then int (bs ! i) else 0)"

function bytesToUTF8 :: "nat list \<Rightarrow> nat list" where
  "bytesToUTF8 [] = []"
| "bytesToUTF8 (c1 # rest) =
     (if c1 < 128 then c1 # bytesToUTF8 rest
      else if c1 > 191 \<and> c1 < 224 then
        nat ((push_bit 6 (int c1 AND 31) OR (byteOr0 rest 0 AND 63)) mod 65536)
          # bytesToUTF8 (drop 1 rest)
      else if c1 > 239 \<and> c1 < 365 then
        (let u = (push_bit 18 (int c1 AND 7) OR push_bit 12 (byteOr0 rest 0 AND 63)
                  OR push_bit 6 (byteOr0 rest 1 AND 63) OR (byteOr0 rest 2 AND 63)) - 0x10000
         in nat ((0xd800 + drop_bit 10 u) mod 65536) # nat ((0xdc00 + (u AND 1023)) mod 65536)
              # bytesToUTF8 (drop 3 rest))
      else
        nat ((push_bit 12 (int c1 AND 15) OR push_bit 6 (byteOr0 rest 0 AND 63)
              OR (byteOr0 rest 1 AND 63)) mod 65536)
          # bytesToUTF8 (drop 2 rest))"
  by pat_completeness auto
termination
  by (relation "measure length") auto

function decodeByteLoop ::
  "int \<Rightarrow> int \<Rightarrow> BitStream \<Rightarrow> nat list \<Rightarrow> error + (BitStream \<times> nat list)" where
  "decodeByteLoop i len s bs =
     (if i < len then
        (case readBits 8 s of
           Inl e \<Rightarrow> Inl e
         | Inr (b, s') \<Rightarrow> decodeByteLoop (i + 1) len s' (bs @ [nat b]))
      else Inr (s, bs))"
  by pat_completeness auto
termination
  by (relation "measure (\<lambda>(i, len, s, bs). nat (len - i))") auto

declare decodeByteLoop.simps [simp del]

definition decodeByte :: "nat \<Rightarrow> BitStream \<Rightarrow> error + (nat list \<times> nat list \<times> BitStream)" where
  "decodeByte sz s =
     (case readBits ([8, 16, 16] ! sz) s of
        Inl e \<Rightarrow> Inl e
      | Inr (len, s1) \<Rightarrow>
          (case decodeByteLoop 0 len s1 [] of
             Inl e \<Rightarrow> Inl e
           | Inr (s2, bs) \<Rightarrow> Inr (bs, bytesToUTF8 bs, s2)))"

subsection \<open>Kanji\<close>

text \<open>
  The table from Shift-JIS codes to Unicode is a parameter; a code without an entry
  gives \<open>undefined\<close>, for which \<open>String.fromCharCode\<close> yields the code unit 0.
\<close>

function decodeKanjiLoop ::
  "(nat \<Rightarrow> nat option) \<Rightarrow> int \<Rightarrow> int \<Rightarrow> BitStream \<Rightarrow> nat list \<Rightarrow> nat list
     \<Rightarrow> error + (BitStream \<times> nat list \<times> nat list)" where
  "decodeKanjiLoop table i len s bs str =
     (if i < len then
        (case readBits 13 s of
           Inl e \<Rightarrow> Inl e
         | Inr (k, s') \<Rightarrow>
             decodeKanjiLoop table (i + 1) len s' (bs @ kanjiBytes (nat k))
               (str @ [case table (kanjiUnpack (nat k)) of None \<Rightarrow> 0 | Some u \<Rightarrow> u]))
      else Inr (s, bs, str))"
  by pat_completeness auto
termination
  by (relation "measure (\<lambda>(table, i, len, s, bs, str). nat (len - i))") auto

declare decodeKanjiLoop.simps [simp del]

definition decodeKanji ::
  "(nat \<Rightarrow> nat option) \<Rightarrow> nat \<Rightarrow> BitStream \<Rightarrow> error + (nat list \<times> nat list \<times> BitStream)" where
  "decodeKanji table sz s =
     (case readBits ([8, 10, 12] ! sz) s of
        Inl e \<Rightarrow> Inl e
      | Inr (len, s1) \<Rightarrow>
          (case decodeKanjiLoop table 0 len s1 [] [] of
             Inl e \<Rightarrow> Inl e
           | Inr (s2, bs, str) \<Rightarrow> Inr (bs, str, s2)))"

subsection \<open>ECI and structured append\<close>

definition decodeECI :: "BitStream \<Rightarrow> error + (int \<times> BitStream)" where
  "decodeECI s =
     (case readBits 1 s of
        Inl e \<Rightarrow> Inl e
      | Inr (b1, s1) \<Rightarrow>
          if b1 = 0 then readBits 7 s1
          else (case readBits 1 s1 of
                  Inl e \<Rightarrow> Inl e
                | Inr (b2, s2) \<Rightarrow>
                    if b2 = 0 then readBits 14 s2
                    else (case readBits 1 s2 of
                            Inl e \<Rightarrow> Inl e
                          | Inr (b3, s3) \<Rightarrow>
                              if b3 = 0 then readBits 21 s3 else Inr (- 1, s3))))"

definition decodeStructuredAppend :: "BitStream \<Rightarrow> error + (Chunk \<times> BitStream)" where
  "decodeStructuredAppend s =
     (case readBits 4 s of
        Inl e \<Rightarrow> Inl e
      | Inr (m, s1) \<Rightarrow>
          (case readBits 4 s1 of
             Inl e \<Rightarrow> Inl e
           | Inr (n, s2) \<Rightarrow>
               (case readBits 8 s2 of
                  Inl e \<Rightarrow> Inl e
                | Inr (parity, s3) \<Rightarrow> Inr (StructuredAppendChunk (m + 1) (n + 1) parity, s3))))"

subsection \<open>The loop of \<open>decode$1\<close>\<close>

text \<open>
  One pass through the body of the \<open>while\<close> loop after a mode indicator other than the
  terminator has been read: the branch of the mode reads its segment from the stream and
  extends the result; a mode indicator without a branch changes nothing.
\<close>

definition addSegment :: "DecodedQR \<Rightarrow> nat list \<Rightarrow> nat list \<Rightarrow> Chunk \<Rightarrow> DecodedQR" where
  "addSegment r str bs c =
     r\<lparr>resultText := resultText r @ str, resultBytes := resultBytes r @ bs,
       chunks := chunks r @ [c]\<rparr>"

definition decodeSegment ::
  "(nat \<Rightarrow> nat option) \<Rightarrow> nat \<Rightarrow> int \<Rightarrow> BitStream \<Rightarrow> DecodedQR
     \<Rightarrow> error + (BitStream \<times> DecodedQR)" where
  "decodeSegment table sz mode s r =
     (if mode = 7 then
        (case decodeECI s of
           Inl e \<Rightarrow> Inl e
         | Inr (n, s') \<Rightarrow> Inr (s', r\<lparr>chunks := chunks r @ [ECIChunk n]\<rparr>))
      else if mode = 1 then
        (case decodeNumeric sz s of
           Inl e \<Rightarrow> Inl e
         | Inr (bs, str, s') \<Rightarrow> Inr (s', addSegment r str bs (NumericChunk str)))
      else if mode = 2 then
        (case decodeAlphanumeric sz s of
           Inl e \<Rightarrow> Inl e
         | Inr (bs, str, s') \<Rightarrow> Inr (s', addSegment r str bs (AlphanumericChunk str)))
      else if mode = 3 then
        (case decodeStructuredAppend s of
           Inl e \<Rightarrow> Inl e
         | Inr (c, s') \<Rightarrow> Inr (s', r\<lparr>chunks := chunks r @ [c]\<rparr>))
      else if mode = 4 then
        (case decodeByte sz s of
           Inl e \<Rightarrow> Inl e
         | Inr (bs, str, s') \<Rightarrow> Inr (s', addSegment r str bs (ByteChunk bs str)))
      else if mode = 8 then
        (case decodeKanji table sz s of
           Inl e \<Rightarrow> Inl e
         | Inr (bs, str, s') \<Rightarrow> Inr (s', addSegment r str bs (KanjiChunk bs str)))
      else Inr (s, r))"

lemma decodeNumericLoop_available:
  "decodeNumericLoop len s bs = Inr (len', s', bs') \<Longrightarrow> available s' \<le> available s"
proof (induction len s bs rule: decodeNumericLoop.induct)
  case (1 len s bs)
  show ?case
  proof (cases "len \<ge> 3")
    case False
    with 1(2) show ?thesis by (simp add: decodeNumericLoop.simps [of len s bs])
  next
    case True
    with 1(2) obtain num s1 where r: "readBits 10 s = Inr (num, s1)" and lt: "\<not> num \<ge> 1000"
      and rec: "decodeNumericLoop (len - 3) s1
          (bs @ [nat (48 + num div 100), nat (48 + (num div 10) mod 10), nat (48 + num mod 10)])
        = Inr (len', s', bs')"
      by (auto simp add: decodeNumericLoop.simps [of len s bs] Let_def
          split: sum.splits if_splits)
    from 1(1) [OF True r refl lt refl refl refl rec] readBits_available [OF r]
    show ?thesis by simp
  qed
qed

lemma decodeAlphanumericLoop_available:
  "decodeAlphanumericLoop len s bs = Inr (len', s', bs') \<Longrightarrow> available s' \<le> available s"
proof (induction len s bs rule: decodeAlphanumericLoop.induct)
  case (1 len s bs)
  show ?case
  proof (cases "len \<ge> 2")
    case False
    with 1(2) show ?thesis by (simp add: decodeAlphanumericLoop.simps [of len s bs])
  next
    case True
    with 1(2) obtain v s1 ca cb where r: "readBits 11 s = Inr (v, s1)"
      and a: "alphanumericCode (v div 45) = Inr ca" and b: "alphanumericCode (v mod 45) = Inr cb"
      and rec: "decodeAlphanumericLoop (len - 2) s1 (bs @ [ca, cb]) = Inr (len', s', bs')"
      by (auto simp add: decodeAlphanumericLoop.simps [of len s bs] split: sum.splits)
    from 1(1) [OF True r refl a b rec] readBits_available [OF r]
    show ?thesis by simp
  qed
qed

lemma decodeByteLoop_available:
  "decodeByteLoop i len s bs = Inr (s', bs') \<Longrightarrow> available s' \<le> available s"
proof (induction i len s bs rule: decodeByteLoop.induct)
  case (1 i len s bs)
  show ?case
  proof (cases "i < len")
    case False
    with 1(2) show ?thesis by (simp add: decodeByteLoop.simps [of i len s bs])
  next
    case True
    with 1(2) obtain b s1 where r: "readBits 8 s = Inr (b, s1)"
      and rec: "decodeByteLoop (i + 1) len s1 (bs @ [nat b]) = Inr (s', bs')"
      by (auto simp add: decodeByteLoop.simps [of i len s bs] split: sum.splits)
    from 1(1) [OF True r refl rec] readBits_available [OF r]
    show ?thesis by simp
  qed
qed

lemma decodeKanjiLoop_available:
  "decodeKanjiLoop table i len s bs str = Inr (s', bs', str') \<Longrightarrow> available s' \<le> available s"
proof (induction table i len s bs str rule: decodeKanjiLoop.induct)
  case (1 table i len s bs str)
  show ?case
  proof (cases "i < len")
    case False
    with 1(2) show ?thesis by (simp add: decodeKanjiLoop.simps [of table i len s bs str])
  next
    case True
    with 1(2) obtain k s1 where r: "readBits 13 s = Inr (k, s1)"
      and rec: "decodeKanjiLoop table (i + 1) len s1 (bs @ kanjiBytes (nat k))
          (str @ [case table (kanjiUnpack (nat k)) of None \<Rightarrow> 0 | Some u \<Rightarrow> u])
        = Inr (s', bs', str')"
      by (auto simp add: decodeKanjiLoop.simps [of table i len s bs str] split: sum.splits)
    from 1(1) [OF True r refl rec] readBits_available [OF r]
    show ?thesis by simp
  qed
qed

lemma decodeSegment_available:
  assumes "decodeSegment table sz mode s r = Inr (s', r')"
  shows "available s' \<le> available s"
proof -
  have rb: "\<And>n t v t'. readBits n t = Inr (v, t') \<Longrightarrow> available t' \<le> available t"
    using readBits_available by fastforce
  consider "mode = 7" | "mode = 1" | "mode = 2" | "mode = 3" | "mode = 4" | "mode = 8"
    | "mode \<notin> {7, 1, 2, 3, 4, 8}" by auto
  then show ?thesis
  proof cases
    case 1
    with assms obtain n where "decodeECI s = Inr (n, s')"
      by (auto simp add: decodeSegment_def split: sum.splits)
    then show ?thesis
      by (auto simp add: decodeECI_def split: sum.splits if_splits dest!: rb)
  next
    case 2
    with assms obtain bs str where "decodeNumeric sz s = Inr (bs, str, s')"
      by (auto simp add: decodeSegment_def split: sum.splits)
    then show ?thesis
      by (auto simp add: decodeNumeric_def Let_def split: sum.splits if_splits
          dest!: rb decodeNumericLoop_available)
  next
    case 3
    with assms obtain bs str where "decodeAlphanumeric sz s = Inr (bs, str, s')"
      by (auto simp add: decodeSegment_def split: sum.splits)
    then show ?thesis
      by (auto simp add: decodeAlphanumeric_def Let_def split: sum.splits if_splits
          dest!: rb decodeAlphanumericLoop_available)
  next
    case 4
    with assms obtain c where "decodeStructuredAppend s = Inr (c, s')"
      by (auto simp add: decodeSegment_def split: sum.splits)
    then show ?thesis
      by (auto simp add: decodeStructuredAppend_def split: sum.splits dest!: rb)
  next
    case 5
    with assms obtain bs str where "decodeByte sz s = Inr (bs, str, s')"
      by (auto simp add: decodeSegment_def split: sum.splits)
    then show ?thesis
      by (auto simp add: decodeByte_def split: sum.splits
          dest!: rb decodeByteLoop_available)
  next
    case 6
    with assms obtain bs str where "decodeKanji table sz s = Inr (bs, str, s')"
      by (auto simp add: decodeSegment_def split: sum.splits)
    then show ?thesis
      by (auto simp add: decodeKanji_def split: sum.splits
          dest!: rb decodeKanjiLoop_available)
  next
    case 7
    with assms show ?thesis by (auto simp add: decodeSegment_def)
  qed
qed

text \<open>
  The \<open>while\<close> loop of \<open>decode$1\<close> and the statement after it. The function returns
  the result object, returns nothing (\<open>undefined\<close>, here \<open>None\<close>) when the bits left
  over are not all zero, or throws.
\<close>

function decodeLoop ::
  "(nat \<Rightarrow> nat option) \<Rightarrow> nat \<Rightarrow> BitStream \<Rightarrow> DecodedQR \<Rightarrow> error + DecodedQR option" where
  "decodeLoop table sz s r =
     (if available s \<ge> 4 then
        (case readBits 4 s of
           Inl e \<Rightarrow> Inl e
         | Inr (mode, s1) \<Rightarrow>
             if mode = 0 then Inr (Some r)
             else (case decodeSegment table sz mode s1 r of
                     Inl e \<Rightarrow> Inl e
                   | Inr (s2, r2) \<Rightarrow> decodeLoop table sz s2 r2))
      else if available s = 0 then Inr (Some r)
      else (case readBits (available s) s of
              Inl e \<Rightarrow> Inl e
            | Inr (v, s1) \<Rightarrow> if v = 0 then Inr (Some r) else Inr None))"
  by pat_completeness auto
termination
proof (relation "measure (\<lambda>(table, sz, s, r). nat (available s))")
  show "wf (measure (\<lambda>(table, sz, s, r). nat (available s)))" by simp
next
  fix table :: "nat \<Rightarrow> nat option" and sz :: nat and s s1 s2 :: BitStream
    and r r2 :: DecodedQR and x :: "int \<times> BitStream" and mode :: int
    and y :: "BitStream \<times> DecodedQR"
  assume a: "4 \<le> available s" and rd: "readBits 4 s = Inr x" and x: "(mode, s1) = x"
    and seg: "decodeSegment table sz mode s1 r = Inr y" and y: "(s2, r2) = y"
  from rd x have "readBits 4 s = Inr (mode, s1)" by simp
  from readBits_available [OF this] have "available s1 = available s - 4" by simp
  moreover from seg y have "decodeSegment table sz mode s1 r = Inr (s2, r2)" by simp
  from decodeSegment_available [OF this] have "available s2 \<le> available s1" .
  ultimately show "((table, sz, s2, r2), (table, sz, s, r))
      \<in> measure (\<lambda>(table, sz, s, r). nat (available s))"
    using a by simp
qed

declare decodeLoop.simps [simp del]

text \<open>The size class of a version: 0 up to version 9, 1 up to version 26, 2 beyond.\<close>

definition versionSize :: "int \<Rightarrow> nat" where
  "versionSize versionNumber =
     (if versionNumber \<le> 9 then 0 else if versionNumber \<le> 26 then 1 else 2)"

definition decode1 :: "(nat \<Rightarrow> nat option) \<Rightarrow> nat list \<Rightarrow> int \<Rightarrow> error + DecodedQR option" where
  "decode1 table dat versionNumber =
     (let sz = versionSize versionNumber
      in decodeLoop table sz (newBitStream dat) \<lparr>resultText = [], resultBytes = [], chunks = []\<rparr>)"

text \<open>
  The states of the loop: \<open>reached table sz dat s r\<close> holds when the loop of
  \<open>decode$1\<close> on the bytes \<open>dat\<close> arrives at the head of the \<open>while\<close> with the
  stream at \<open>s\<close> and the result \<open>r\<close> gathered so far.
\<close>

inductive reached ::
  "(nat \<Rightarrow> nat option) \<Rightarrow> nat \<Rightarrow> nat list \<Rightarrow> BitStream \<Rightarrow> DecodedQR \<Rightarrow> bool"
  for table :: "nat \<Rightarrow> nat option" and sz :: nat and dat :: "nat list" where
  start: "reached table sz dat (newBitStream dat)
            \<lparr>resultText = [], resultBytes = [], chunks = []\<rparr>"
| step: "reached table sz dat s r \<Longrightarrow> 4 \<le> available s \<Longrightarrow> readBits 4 s = Inr (mode, s1)
           \<Longrightarrow> mode \<noteq> 0 \<Longrightarrow> decodeSegment table sz mode s1 r = Inr (s2, r2)
           \<Longrightarrow> reached table sz dat s2 r2"

text \<open>
  The end of \<open>decodeMatrix\<close>, applied to the corrected data bytes: the \<open>try\<close> around
  \<open>decode$1\<close> turns every exception into \<open>null\<close>. \<open>None\<close> stands for \<open>null\<close> and
  for \<open>undefined\<close>, which the callers do not tell apart.
\<close>

definition decodeMatrixData ::
  "(nat \<Rightarrow> nat option) \<Rightarrow> nat list \<Rightarrow> int \<Rightarrow> DecodedQR option" where
  "decodeMatrixData table corrected versionNumber =
     (case decode1 table corrected versionNumber of Inl e \<Rightarrow> None | Inr r \<Rightarrow> r)"

text \<open>
  The number of bits a segment of the four data modes takes after its mode indicator:
  the width of the count indicator (the three-element arrays of the segment decoders) and
  the bits of a body of \<open>n\<close> characters (the reads of the loops above). They serve to
  say that a stream ends inside a segment.
\<close>

definition characterCountSize :: "int \<Rightarrow> nat \<Rightarrow> int" where
  "characterCountSize mode sz =
     (if mode = 1 then [10, 12, 14] ! sz
      else if mode = 2 then [9, 11, 13] ! sz
      else if mode = 4 then [8, 16, 16] ! sz
      else [8, 10, 12] ! sz)"

definition segmentBodyBits :: "int \<Rightarrow> int \<Rightarrow> int" where
  "segmentBodyBits mode n =
     (if mode = 1 then 10 * (n div 3) + (if n mod 3 = 2 then 7 else if n mod 3 = 1 then 4 else 0)
      else if mode = 2 then 11 * (n div 2) + 6 * (n mod 2)
      else if mode = 4 then 8 * n
      else 13 * n)"

text \<open>A Shift-JIS table without entries, for streams that hold no Kanji segment.\<close>

definition emptyTable :: "nat \<Rightarrow> nat option" where
  "emptyTable c = None"

section \<open>Encoder: data model\<close>

text \<open>The two enumerations with the numbers the bundle gives their members.\<close>

datatype Mode = Numeric | Alphanumeric | Byte | Kanji

fun modeValue :: "Mode \<Rightarrow> nat" where
  "modeValue Numeric = 1"
| "modeValue Alphanumeric = 2"
| "modeValue Byte = 4"
| "modeValue Kanji = 8"

datatype ErrorCorrectLevel = L | M | Q | H

fun levelValue :: "ErrorCorrectLevel \<Rightarrow> nat" where
  "levelValue L = 1"
| "levelValue M = 0"
| "levelValue Q = 3"
| "levelValue H = 2"

text \<open>
  \<open>QRData\<close> with its four subclasses: the mode tells the subclass, the data is the
  string, a list of UTF-16 code units.
\<close>

record QRData =
  dataMode :: Mode
  content :: "nat list"

text \<open>
  The encoder object: the fields written by \<open>setVersion\<close> and the rest. A module is
  \<open>null\<close> (\<open>None\<close>) until it is written.
\<close>

record QRCode = VersionState +
  moduleCount :: int
  dataList :: "QRData list"
  modules :: "bool option list list"
  errorCorrectLevel :: ErrorCorrectLevel

definition newQRCode :: QRCode where
  "newQRCode = \<lparr>version = 0, autoVersion = True, moduleCount = 0, dataList = [],
     modules = [], errorCorrectLevel = L\<rparr>"

text \<open>
  \<open>isDark\<close>. The callers modelled here stay inside the matrix, where the row and the
  cell exist; outside, the model answers false.
\<close>

definition isDark :: "QRCode \<Rightarrow> int \<Rightarrow> int \<Rightarrow> bool" where
  "isDark q row col =
     (if 0 \<le> row \<and> nat row < length (modules q) \<and> 0 \<le> col
         \<and> nat col < length (modules q ! nat row)
      then (case modules q ! nat row ! nat col of Some b \<Rightarrow> b | None \<Rightarrow> False)
      else False)"

section \<open>Encoder: the penalty score\<close>

text \<open>
  Penalty rule 1 of \<open>getPenaltyScore\<close>: for every module, the neighbours in the 3 by 3
  window that lie inside the matrix and have its colour are counted.
\<close>

definition sameCountAt :: "QRCode \<Rightarrow> int \<Rightarrow> int \<Rightarrow> int" where
  "sameCountAt q row col =
     (let dark = isDark q row col
      in fold (\<lambda>r sameCount.
           if row + r < 0 \<or> moduleCount q \<le> row + r then sameCount
           else fold (\<lambda>c sameCount.
                  if col + c < 0 \<or> moduleCount q \<le> col + c then sameCount
                  else if r = 0 \<and> c = 0 then sameCount
                  else if dark = isDark q (row + r) (col + c) then sameCount + 1
                  else sameCount) [- 1, 0, 1] sameCount) [- 1, 0, 1] 0)"

definition penaltyRule1 :: "QRCode \<Rightarrow> int" where
  "penaltyRule1 q =
     fold (\<lambda>row score.
        fold (\<lambda>col score.
           (let sameCount = sameCountAt q row col
            in if sameCount > 5 then score + (3 + sameCount - 5) else score))
          [0..moduleCount q - 1] score)
       [0..moduleCount q - 1] 0"

definition penaltyRule2 :: "QRCode \<Rightarrow> int" where
  "penaltyRule2 q =
     fold (\<lambda>row score.
        fold (\<lambda>col score.
           (let count = (if isDark q row col then 1 else 0)
                  + (if isDark q (row + 1) col then 1 else 0)
                  + (if isDark q row (col + 1) then 1 else 0)
                  + (if isDark q (row + 1) (col + 1) then 1 else (0::int))
            in if count = 0 \<or> count = 4 then score + 3 else score))
          [0..moduleCount q - 2] score)
       [0..moduleCount q - 2] 0"

text \<open>The 1:1:3:1:1 pattern starting at a module, along a row and along a column.\<close>

definition finderLike :: "(int \<Rightarrow> bool) \<Rightarrow> bool" where
  "finderLike d = (d 0 \<and> \<not> d 1 \<and> d 2 \<and> d 3 \<and> d 4 \<and> \<not> d 5 \<and> d 6)"

definition penaltyRule3 :: "QRCode \<Rightarrow> int" where
  "penaltyRule3 q =
     fold (\<lambda>row score.
        fold (\<lambda>col score.
           (let score = (if finderLike (\<lambda>k. isDark q row (col + k)) then score + 40 else score)
            in if finderLike (\<lambda>k. isDark q (col + k) row) then score + 40 else score))
          [0..moduleCount q - 7] score)
       [0..moduleCount q - 1] 0"

definition darkCount :: "QRCode \<Rightarrow> int" where
  "darkCount q =
     fold (\<lambda>col count.
        fold (\<lambda>row count. if isDark q row col then count + 1 else count)
          [0..moduleCount q - 1] count)
       [0..moduleCount q - 1] 0"

text \<open>
  Penalty rule 4 is a double-precision expression of the number of dark modules and the
  module count, \<open>10 * Math.floor(Math.abs(darkCount / (moduleCount * moduleCount) * 100 - 50) / 5)\<close>.
  Its value is taken as a parameter \<open>rule4\<close> of the score; \<open>rule4Exact\<close> is the
  expression read in exact arithmetic.
\<close>

definition rule4Exact :: "int \<Rightarrow> int \<Rightarrow> int" where
  "rule4Exact dark n =
     10 * \<lfloor>\<bar>(of_int dark / of_int (n * n) :: rat) * 100 - 50\<bar> / 5\<rfloor>"

definition getPenaltyScore :: "(int \<Rightarrow> int \<Rightarrow> int) \<Rightarrow> QRCode \<Rightarrow> int" where
  "getPenaltyScore rule4 q =
     penaltyRule1 q + penaltyRule2 q + penaltyRule3 q + rule4 (darkCount q) (moduleCount q)"

text \<open>
  Rule 1 as the standard words it, for comparison: every maximal run of at least five
  modules of one colour in a row or a column costs 3 plus the length beyond five.
\<close>

fun runLengths :: "bool list \<Rightarrow> nat list" where
  "runLengths [] = []"
| "runLengths [x] = [1]"
| "runLengths (x # y # xs) =
     (if x = y then (case runLengths (y # xs) of [] \<Rightarrow> [1] | n # ns \<Rightarrow> Suc n # ns)
      else 1 # runLengths (y # xs))"

definition runPenalty :: "bool list \<Rightarrow> int" where
  "runPenalty line = (\<Sum>n \<leftarrow> runLengths line. if n \<ge> 5 then 3 + (int n - 5) else 0)"

definition rule1ByRuns :: "QRCode \<Rightarrow> int" where
  "rule1ByRuns q =
     (\<Sum>row \<leftarrow> [0..moduleCount q - 1]. runPenalty (map (\<lambda>col. isDark q row col) [0..moduleCount q - 1]))
     + (\<Sum>col \<leftarrow> [0..moduleCount q - 1]. runPenalty (map (\<lambda>row. isDark q row col) [0..moduleCount q - 1]))"

text \<open>A matrix of horizontal stripes: the rows alternate, dark first.\<close>

definition stripes :: "nat \<Rightarrow> QRCode" where
  "stripes n = newQRCode\<lparr>moduleCount := int n,
     modules := map (\<lambda>row. replicate n (Some (even row))) [0..<n]\<rparr>"

text \<open>
  The offsets of the neighbours of a module that lie inside the matrix and have the
  colour of the module.
\<close>

definition sameNeighbours :: "QRCode \<Rightarrow> int \<Rightarrow> int \<Rightarrow> (int \<times> int) set" where
  "sameNeighbours q row col =
     {(r, c). (r, c) \<in> {- 1, 0, 1} \<times> {- 1, 0, 1} \<and> (r, c) \<noteq> (0, 0)
        \<and> 0 \<le> row + r \<and> row + r < moduleCount q \<and> 0 \<le> col + c \<and> col + c < moduleCount q
        \<and> isDark q (row + r) (col + c) = isDark q row col}"

section \<open>Encoder: the bit buffer\<close>

text \<open>
  \<open>BitBuffer\<close>: the byte array and the number of bits written. \<open>putBit\<close> appends a zero
  byte when the last byte is full and sets the bit of the new position when the bit is 1.
  The array always holds the byte of the position written (\<open>wellFormedBuffer\<close> below is
  kept by \<open>putBit\<close>), so the update is inside the array.
\<close>

record BitBuffer =
  buffer :: "nat list"
  bitLength :: nat

definition newBitBuffer :: BitBuffer where
  "newBitBuffer = \<lparr>buffer = [], bitLength = 0\<rparr>"

definition getBit :: "BitBuffer \<Rightarrow> nat \<Rightarrow> bool" where
  "getBit b index = (drop_bit (7 - index mod 8) (buffer b ! (index div 8)) AND 1 = 1)"

definition putBit :: "bool \<Rightarrow> BitBuffer \<Rightarrow> BitBuffer" where
  "putBit v b =
     (let b = (if bitLength b = length (buffer b) * 8 then b\<lparr>buffer := buffer b @ [0]\<rparr> else b);
          b = (if v
               then b\<lparr>buffer := (buffer b)[bitLength b div 8 :=
                        buffer b ! (bitLength b div 8) OR drop_bit (bitLength b mod 8) 0x80]\<rparr>
               else b)
      in b\<lparr>bitLength := bitLength b + 1\<rparr>)"

text \<open>
  \<open>put\<close> writes the low \<open>len\<close> bits of a number, the highest first; \<open>>>>\<close> takes the
  number as an unsigned 32-bit value.
\<close>

definition put :: "nat \<Rightarrow> nat \<Rightarrow> BitBuffer \<Rightarrow> BitBuffer" where
  "put num len b =
     fold (\<lambda>i b. putBit (drop_bit (len - i - 1) (num mod 2 ^ 32) AND 1 = 1) b) [0..<len] b"

text \<open>
  What \<open>putBit\<close> keeps: the array has exactly the bytes the bits need, every byte is
  below 256, and the bits of the last byte beyond the write position are 0.
\<close>

definition wellFormedBuffer :: "BitBuffer \<Rightarrow> bool" where
  "wellFormedBuffer b =
     (length (buffer b) = (bitLength b + 7) div 8
      \<and> list_all (\<lambda>x. x < 256) (buffer b)
      \<and> list_all (\<lambda>i. \<not> getBit b i) [bitLength b..<8 * length (buffer b)])"

section \<open>Encoder: terminator and padding\<close>

definition PAD0 :: nat where "PAD0 = 0xec"

definition PAD1 :: nat where "PAD1 = 0x11"

lemma bitLength_putBit [simp]: "bitLength (putBit v b) = bitLength b + 1"
  by (simp add: putBit_def Let_def)

lemma bitLength_put [simp]: "bitLength (put num len b) = bitLength b + len"
proof -
  have *: "bitLength (fold (\<lambda>i b. putBit (f i) b) xs b) = bitLength b + length xs" for f xs
    by (induction xs arbitrary: b) simp_all
  show ?thesis unfolding put_def by (simp only: *) simp
qed

text \<open>The loop \<open>while (buffer.getLengthInBits() % 8 !== 0) buffer.putBit(false)\<close>.\<close>

function alignToByte :: "BitBuffer \<Rightarrow> BitBuffer" where
  "alignToByte b = (if bitLength b mod 8 \<noteq> 0 then alignToByte (putBit False b) else b)"
  by pat_completeness auto
termination
proof (relation "measure (\<lambda>b. (8 - bitLength b mod 8) mod 8)")
  show "wf (measure (\<lambda>b. (8 - bitLength b mod 8) mod 8))" by simp
next
  fix b :: BitBuffer
  assume a: "bitLength b mod 8 \<noteq> 0"
  have m: "bitLength b mod 8 < 8" by simp
  have "(bitLength b + 1) mod 8 = (bitLength b mod 8 + 1) mod 8" by (simp add: mod_simps)
  then have "(8 - (bitLength b + 1) mod 8) mod 8 < (8 - bitLength b mod 8) mod 8"
    using a m by (cases "bitLength b mod 8 = 7") auto
  then show "(putBit False b, b) \<in> measure (\<lambda>b. (8 - bitLength b mod 8) mod 8)" by simp
qed

declare alignToByte.simps [simp del]

text \<open>The padding loop: \<open>PAD0\<close> and \<open>PAD1\<close> in turn until the buffer is full.\<close>

function padLoop :: "nat \<Rightarrow> BitBuffer \<Rightarrow> BitBuffer" where
  "padLoop maxDataCount b =
     (if bitLength b \<ge> maxDataCount then b
      else (let b = put PAD0 8 b
            in if bitLength b \<ge> maxDataCount then b
               else padLoop maxDataCount (put PAD1 8 b)))"
  by pat_completeness auto
termination
  by (relation "measure (\<lambda>(maxDataCount, b). maxDataCount - bitLength b)") auto

declare padLoop.simps [simp del]

text \<open>
  \<open>createData\<close> up to the call of \<open>createBytes\<close>: the overflow check, the terminator,
  the zero bits up to the byte boundary and the padding bytes.
\<close>

definition padData :: "BitBuffer \<Rightarrow> nat \<Rightarrow> error + BitBuffer" where
  "padData b maxDataCount =
     (if bitLength b > maxDataCount then Inl (DataOverflow (int (bitLength b)) (int maxDataCount))
      else (let b = (if bitLength b + 4 \<le> maxDataCount then put 0 4 b else b);
                b = alignToByte b
            in Inr (padLoop maxDataCount b)))"

section \<open>Properties\<close>

subsection \<open>Bit operations on naturals\<close>

lemma and255: "(x::nat) AND 255 = x mod 256"
proof -
  have "x AND mask 8 = take_bit 8 x" by (simp add: take_bit_eq_mask)
  moreover have "(mask 8 :: nat) = 255" by (simp add: mask_eq_exp_minus_1)
  ultimately show ?thesis by (simp add: take_bit_eq_mod)
qed

lemma shl8_or:
  assumes "l < 256" shows "push_bit 8 (h::nat) OR l = h * 256 + l"
proof -
  have l: "take_bit 8 l = l" using assms by (simp add: take_bit_nat_eq_self_iff)
  have "push_bit 8 h AND take_bit 8 l = 0"
    by (rule bit_eqI) (auto simp add: bit_simps)
  then have "push_bit 8 h + take_bit 8 l = push_bit 8 h OR take_bit 8 l"
    by (rule disjunctive_add_eq_or)
  then show ?thesis by (simp add: l push_bit_eq_mult)
qed

lemma shr8: "drop_bit 8 (x::nat) = x div 256"
  by (simp add: drop_bit_eq_div)

subsection \<open>The stored version\<close>

text \<open>
  C10 (amended). \<open>setVersion\<close> is total; afterwards the stored version lies in
  \<open>[0, 40]\<close>, the auto-version flag holds exactly when the stored version is 0, and the
  stored version is \<open>min 40 (v mod 2 ^ 32)\<close>. Hence every argument from 40 up to
  \<open>2 ^ 32 - 1\<close> stores 40, and so does every negative argument from
  \<open>- (2 ^ 32) + 40\<close> up to \<open>- 1\<close>.
\<close>

theorem setVersion_clamps:
  "0 \<le> version (setVersion v q) \<and> version (setVersion v q) \<le> 40
   \<and> autoVersion (setVersion v q) = (version (setVersion v q) = 0)
   \<and> version (setVersion v q) = min 40 (v mod 2 ^ 32)
   \<and> (40 \<le> v \<and> v < 2 ^ 32 \<longrightarrow> version (setVersion v q) = 40)
   \<and> (- (2 ^ 32) + 40 \<le> v \<and> v < 0 \<longrightarrow> version (setVersion v q) = 40)"
proof -
  have m: "0 \<le> v mod 2 ^ 32" by simp
  have a: "40 \<le> v \<and> v < 2 ^ 32 \<Longrightarrow> v mod 2 ^ 32 = v" by simp
  have b: "- (2 ^ 32) + 40 \<le> v \<and> v < 0 \<Longrightarrow> v mod 2 ^ 32 = v + 2 ^ 32"
    by (smt (verit) mod_add_self2 mod_pos_pos_trivial)
  show ?thesis
    using m a b by (auto simp: setVersion_def toUint32_def Let_def min_def max_def)
qed

theorem setVersion_clamps_witness:
  "version (setVersion 100 \<lparr>version = 7, autoVersion = False\<rparr>) = 40
   \<and> version (setVersion (- 1) \<lparr>version = 7, autoVersion = False\<rparr>) = 40"
  using setVersion_clamps [of 100 "\<lparr>version = 7, autoVersion = False\<rparr>"]
        setVersion_clamps [of "- 1" "\<lparr>version = 7, autoVersion = False\<rparr>"]
  by simp

text \<open>
  The claim as stated fails beyond 32 bits: \<open>2 ^ 32 + 1\<close> is above 40 and stores 1, and
  \<open>- (2 ^ 32)\<close> is negative and stores 0, which also switches automatic version
  selection on.
\<close>

theorem setVersion_wraps:
  "(40::int) < 4294967297
   \<and> version (setVersion 4294967297 \<lparr>version = 7, autoVersion = False\<rparr>) = 1
   \<and> (- 4294967296 :: int) < 0
   \<and> version (setVersion (- 4294967296) \<lparr>version = 7, autoVersion = False\<rparr>) = 0
   \<and> autoVersion (setVersion (- 4294967296) \<lparr>version = 7, autoVersion = False\<rparr>)"
  by (simp add: setVersion_def toUint32_def)

subsection \<open>Kanji mode\<close>

text \<open>
  C9. A two-byte Shift-JIS code has a second byte of at least \<open>0x40\<close> (the second bytes
  are \<open>0x40\<close> to \<open>0x7E\<close> and \<open>0x80\<close> to \<open>0xFC\<close>; the table of the bundle holds no
  other). For every such code in \<open>[0x8140, 0x9FFC]\<close> or \<open>[0xE040, 0xEBBF]\<close> the writer
  produces a value that fits 13 bits, and the decoder's mapping of that value gives back
  the two bytes of the code.
\<close>

theorem kanji_roundtrip:
  assumes r: "(0x8140 \<le> code \<and> code \<le> 0x9ffc) \<or> (0xe040 \<le> code \<and> code \<le> 0xebbf)"
    and lo: "0x40 \<le> code mod 256"
  shows "\<exists>k. kanjiPack code = Inr k \<and> k < 2 ^ 13
     \<and> kanjiBytes k = [code div 256, code mod 256]"
proof -
  define h where "h = code div 256"
  define l where "l = code mod 256 - 64"
  have code: "code = h * 256 + (l + 64)" and lb: "l < 192"
    using lo by (simp_all add: h_def l_def)
  have unpack: "kanjiBytes k = [code div 256, code mod 256]" if "kanjiUnpack k = code" for k
    using that by (simp add: kanjiBytes_def and255 shr8)
  from r show ?thesis
  proof
    assume a: "0x8140 \<le> code \<and> code \<le> 0x9ffc"
    then have h: "0x81 \<le> h" "h \<le> 0x9f" using code lb by auto
    define g where "g = h - 0x81"
    have g: "h = g + 0x81" "g \<le> 0x1e" using h by (simp_all add: g_def)
    have c: "code - 0x8140 = g * 256 + l" by (simp add: code g)
    have pk: "kanjiPack code = Inr (g * 0xc0 + l)"
      using a lb g(2-) by (simp add: kanjiPack_def Let_def and255 shr8 c)
    have k13: "g * 0xc0 + l < 2 ^ 13" using g lb by simp
    have "l < 256" using lb by simp
    then have u: "push_bit 8 g OR l = g * 256 + l" by (rule shl8_or)
    have "g * 256 + l < 0x1f00" using g lb by simp
    then have "kanjiUnpack (g * 0xc0 + l) = code"
      using lb by (simp add: kanjiUnpack_def u Let_def code g)
    with pk k13 unpack show ?thesis by blast
  next
    assume a: "0xe040 \<le> code \<and> code \<le> 0xebbf"
    then have h: "0xe0 \<le> h" "h \<le> 0xeb" using code lb by auto
    define g where "g = h - 0xc1"
    have g: "h = g + 0xc1" "0x1f \<le> g" "g \<le> 0x2a" using h by (simp_all add: g_def)
    have c: "code - 0xc140 = g * 256 + l" by (simp add: code g)
    have pk: "kanjiPack code = Inr (g * 0xc0 + l)"
      using a lb g(2-) by (simp add: kanjiPack_def Let_def and255 shr8 c)
    have g_l: "g * 256 + l \<le> 0x2a7f" using a by (simp add: code g)
    have "g * 192 + l < 8192"
    proof (cases "g = 42")
      case True
      with g_l have "l \<le> 127" by simp
      with True show ?thesis by simp
    next
      case False
      with g(3) have "g \<le> 41" by simp
      then have "g * 192 \<le> 41 * 192" by (rule mult_le_mono1)
      with lb show ?thesis by simp
    qed
    then have k13: "g * 0xc0 + l < 2 ^ 13" by simp
    have "l < 256" using lb by simp
    then have u: "push_bit 8 g OR l = g * 256 + l" by (rule shl8_or)
    have "\<not> g * 256 + l < 0x1f00" using g by simp
    then have "kanjiUnpack (g * 0xc0 + l) = code"
      using lb by (simp add: kanjiUnpack_def u Let_def code g)
    with pk k13 unpack show ?thesis by blast
  qed
qed

theorem kanji_roundtrip_witness:
  "\<exists>k. kanjiPack 0x8abf = Inr k \<and> k < 2 ^ 13 \<and> kanjiBytes k = [0x8a, 0xbf]"
  using kanji_roundtrip [of "0x8abf"] by simp

text \<open>
  The bound on the second byte is needed: the writer accepts any number in the two
  ranges, and one whose low byte is below \<open>0x40\<close> borrows from the high byte.
\<close>

lemma kanjiPack_low_byte_borrow:
  "kanjiPack 0x8200 = Inr 192 \<and> kanjiBytes 192 = [0x82, 0x40]"
  by (simp add: kanjiPack_def kanjiBytes_def kanjiUnpack_def and255 shr8 shl8_or)

subsection \<open>The symbol dimension\<close>

text \<open>
  C8. With module size 1 and both finder distances 12 the two rounded values are 12,
  their mean plus 7 is 19, and 19 leaves the remainder 3 modulo 4: the \<open>switch\<close> has no
  case for it, so 19 is returned as the dimension although no symbol has that size.
\<close>

theorem computeDimension_residue_3:
  "computeDimension 1 12 12 = Inr 19 \<and> (19::int) mod 4 = 3"
  by (simp add: computeDimension_def snapDimension_def)

text \<open>The remainders 0, 1 and 2 are snapped to 1; the remainder 3 is kept.\<close>

lemma snapDimension_mod_4:
  "snapDimension t s mod 4 = (if ((t + s) div 2 + 7) mod 4 = 3 then 3 else 1)"
proof -
  define d where "d = (t + s) div 2 + 7"
  have c: "d mod 4 = 0 \<or> d mod 4 = 1 \<or> d mod 4 = 2 \<or> d mod 4 = 3"
    by (smt (verit) pos_mod_bound pos_mod_sign)
  have a: "d mod 4 = 0 \<Longrightarrow> (d + 1) mod 4 = 1"
    by (metis mod_add_left_eq add_0 mod_pos_pos_trivial zero_less_one_class.zero_le_one one_less_numeral_iff semiring_norm(76) numeral_One)
  have b: "d mod 4 = 2 \<Longrightarrow> (d - 1) mod 4 = 1"
    by (smt (verit) mod_diff_left_eq mod_pos_pos_trivial)
  show ?thesis
    unfolding snapDimension_def Let_def d_def[symmetric] using a b c by auto
qed

subsection \<open>Format information\<close>

text \<open>The number of set bits of a natural, by halving.\<close>

fun popcount :: "nat \<Rightarrow> nat" where
  "popcount n = (if n = 0 then 0 else n mod 2 + popcount (n div 2))"

declare popcount.simps [simp del]

lemma popcount_0 [simp]: "popcount 0 = 0"
  by (simp add: popcount.simps)

lemma popcount_rec: "popcount n = n mod 2 + popcount (n div 2)"
  by (cases "n = 0") (simp_all add: popcount.simps [of n])

lemma popcount_double [simp]: "popcount (2 * m) = popcount m"
  using popcount_rec [of "2 * m"] by simp

lemma popcount_double_Suc [simp]: "popcount (Suc (2 * m)) = Suc (popcount m)"
  using popcount_rec [of "Suc (2 * m)"] by simp

lemma popcount_Suc_0 [simp]: "popcount (Suc 0) = Suc 0"
  using popcount_rec [of "Suc 0"] by simp

lemma popcount_clear_lowest:
  "z \<noteq> 0 \<Longrightarrow> popcount (z AND (z - 1)) + 1 = popcount z"
proof (induction z rule: less_induct)
  case (less z)
  show ?case
  proof (cases "even z")
    case True
    then obtain k where z: "z = 2 * k" by (auto elim: evenE)
    with less.prems have k: "k \<noteq> 0" "k < z" by simp_all
    have odd1: "odd (z - 1)" using z k by simp
    have d1: "(z - 1) div 2 = k - 1" using z k by (cases k) simp_all
    have "z AND (z - 1) = 2 * (k AND (k - 1))"
      using and_nat_rec [of z "z - 1"] True d1 z by simp
    then have "popcount (z AND (z - 1)) = popcount (k AND (k - 1))"
      by (simp del: One_nat_def)
    moreover have "popcount z = popcount k"
      by (simp add: z)
    ultimately show ?thesis using less.IH [OF k(2) k(1)] by simp
  next
    case False
    then obtain k where z: "z = 2 * k + 1" by (auto elim: oddE)
    have "z AND (z - 1) = 2 * k"
      using and_nat_rec [of z "z - 1"] z by simp
    moreover have "popcount (2 * k) = popcount k"
      by simp
    moreover have "popcount z = 1 + popcount k"
      by (simp add: z)
    ultimately show ?thesis by simp
  qed
qed

lemma countBits_popcount: "countBits z c = c + popcount z"
proof (induction z c rule: countBits.induct)
  case (1 z c)
  show ?case
  proof (cases "z = 0")
    case True
    then show ?thesis by (simp add: countBits.simps [of 0 c])
  next
    case False
    have step: "countBits z c = countBits (z AND (z - 1)) (c + 1)"
      using False by (subst countBits.simps) simp
    from 1 [OF False] have "countBits (z AND (z - 1)) (c + 1) = c + 1 + popcount (z AND (z - 1))" .
    with step popcount_clear_lowest [OF False] show ?thesis by simp
  qed
qed

lemma numBitsDiffering_popcount: "numBitsDiffering x y = popcount (x XOR y)"
  by (simp add: numBitsDiffering_def countBits_popcount)

lemma popcount_xor_triangle:
  "popcount (x XOR z) \<le> popcount (x XOR y) + popcount (y XOR z)"
proof (induction "x + y + z" arbitrary: x y z rule: less_induct)
  case less
  show ?case
  proof (cases "x = 0 \<and> y = 0 \<and> z = 0")
    case True
    then show ?thesis by simp
  next
    case False
    then have "x div 2 + y div 2 + z div 2 < x + y + z" by auto
    then have IH: "popcount (x div 2 XOR z div 2)
        \<le> popcount (x div 2 XOR y div 2) + popcount (y div 2 XOR z div 2)"
      by (rule less)
    have r: "popcount (a XOR b) = of_bool (odd a \<noteq> odd b) + popcount (a div 2 XOR b div 2)"
      for a b :: nat
      by (subst popcount_rec) (simp add: xor_nat_rec [of a b])
    show ?thesis
      using IH by (simp add: r [of x z] r [of x y] r [of y z])
  qed
qed

lemma numBitsDiffering_triangle:
  "numBitsDiffering x z \<le> numBitsDiffering x y + numBitsDiffering y z"
  by (simp add: numBitsDiffering_popcount popcount_xor_triangle)

lemma numBitsDiffering_same [simp]: "numBitsDiffering x x = 0"
  by (simp add: numBitsDiffering_popcount)

lemma numBitsDiffering_commute: "numBitsDiffering x y = numBitsDiffering y x"
  by (simp add: numBitsDiffering_popcount xor.commute)

lemma popcount_power2 [simp]: "popcount (2 ^ p) = 1"
proof (induction p)
  case 0
  show ?case by simp
next
  case (Suc p)
  then show ?case by simp
qed

lemma numBitsDiffering_flipBits:
  "numBitsDiffering (flipBits v ps) w \<le> length ps + numBitsDiffering v w"
  unfolding flipBits_def
proof (induction ps arbitrary: v)
  case Nil
  show ?case by simp
next
  case (Cons p ps)
  have "(v XOR 2 ^ p) XOR v = 2 ^ p"
    by (simp add: xor.commute [of v] xor.assoc)
  then have "numBitsDiffering (v XOR 2 ^ p) v = 1"
    by (simp add: numBitsDiffering_popcount)
  with numBitsDiffering_triangle [of "v XOR 2 ^ p" w v]
  have "numBitsDiffering (v XOR 2 ^ p) w \<le> 1 + numBitsDiffering v w" by simp
  with Cons [of "v XOR 2 ^ p"] show ?case by simp
qed


lemma popcount_numeral [simp]:
  "popcount (numeral (Num.Bit0 n)) = popcount (numeral n)"
  "popcount (numeral (Num.Bit1 n)) = Suc (popcount (numeral n))"
  "popcount (numeral Num.One) = Suc 0"
proof -
  have "numeral (Num.Bit0 n) = 2 * (numeral n :: nat)"
    by (simp add: numeral_Bit0 mult_2)
  then show "popcount (numeral (Num.Bit0 n)) = popcount (numeral n)"
    by (simp only: popcount_double)
  have "numeral (Num.Bit1 n) = Suc (2 * (numeral n :: nat))"
    by (simp add: numeral_Bit1 mult_2)
  then show "popcount (numeral (Num.Bit1 n)) = Suc (popcount (numeral n))"
    by (simp only: popcount_double_Suc)
  show "popcount (numeral Num.One) = Suc 0" by simp
qed

text \<open>Any two entries of the table with different bits differ in at least 7 positions.\<close>

lemma FORMAT_INFO_TABLE_distance_all:
  "list_all (\<lambda>(b1, f1). list_all (\<lambda>(b2, f2). b1 = b2 \<or> 7 \<le> popcount (b1 XOR b2))
      FORMAT_INFO_TABLE) FORMAT_INFO_TABLE"
  by (simp add: FORMAT_INFO_TABLE_def)

lemma FORMAT_INFO_TABLE_distance:
  assumes "(b1, f1) \<in> set FORMAT_INFO_TABLE" "(b2, f2) \<in> set FORMAT_INFO_TABLE" "b1 \<noteq> b2"
  shows "7 \<le> numBitsDiffering b1 b2"
proof -
  from FORMAT_INFO_TABLE_distance_all assms(1)
  have "list_all (\<lambda>(b2, f2). b1 = b2 \<or> 7 \<le> popcount (b1 XOR b2)) FORMAT_INFO_TABLE"
    unfolding list_all_iff by blast
  with assms(2) have "b1 = b2 \<or> 7 \<le> popcount (b1 XOR b2)"
    unfolding list_all_iff by blast
  with assms(3) show ?thesis by (simp add: numBitsDiffering_popcount)
qed

lemma FORMAT_INFO_TABLE_distinct: "distinct (map fst FORMAT_INFO_TABLE)"
  by (simp add: FORMAT_INFO_TABLE_def)

text \<open>
  The loop, on any list: when one entry is within 3 bits of both copies and every entry
  with other bits is at least 4 bits away from both, the loop returns that entry, whether
  it meets it later in the list or holds it already as the best so far.
\<close>

lemma matchFormatInfo_nearest:
  assumes near: "numBitsDiffering a bits \<le> 3" "numBitsDiffering b bits \<le> 3"
    and far: "\<forall>(bits', fi') \<in> set xs.
        (bits' = bits \<longrightarrow> fi' = fi)
        \<and> (bits' \<noteq> bits \<longrightarrow> 4 \<le> numBitsDiffering a bits' \<and> 4 \<le> numBitsDiffering b bits')"
    and inv: "bd \<le> 3 \<longrightarrow> bf = Some fi"
    and mem: "(bits, fi) \<in> set xs \<or> bd \<le> 3"
  shows "matchFormatInfo a b xs bd bf = Some fi"
  using far inv mem
proof (induction xs arbitrary: bd bf)
  case Nil
  then show ?case by simp
next
  case (Cons e xs)
  obtain bits' fi' where e: "e = (bits', fi')" by (cases e)
  from Cons.prems(1) e
  have same: "bits' = bits \<Longrightarrow> fi' = fi"
    and other: "bits' \<noteq> bits \<Longrightarrow> 4 \<le> numBitsDiffering a bits' \<and> 4 \<le> numBitsDiffering b bits'"
    and rest: "\<forall>(bits', fi') \<in> set xs.
        (bits' = bits \<longrightarrow> fi' = fi)
        \<and> (bits' \<noteq> bits \<longrightarrow> 4 \<le> numBitsDiffering a bits' \<and> 4 \<le> numBitsDiffering b bits')"
    by auto
  show ?case
  proof (cases "bits' = a \<or> bits' = b")
    case True
    have "bits' = bits"
    proof (rule ccontr)
      assume "bits' \<noteq> bits"
      from other [OF this] True show False by auto
    qed
    with same True show ?thesis by (simp add: e)
  next
    case False
    define d1 where "d1 = numBitsDiffering a bits'"
    define bf1 where "bf1 = (if enat d1 < bd then Some fi' else bf)"
    define bd1 where "bd1 = (if enat d1 < bd then enat d1 else bd)"
    define d2 where "d2 = numBitsDiffering b bits'"
    define bf2 where "bf2 = (if a \<noteq> b \<and> enat d2 < bd1 then Some fi' else bf1)"
    define bd2 where "bd2 = (if a \<noteq> b \<and> enat d2 < bd1 then enat d2 else bd1)"
    have unfold: "matchFormatInfo a b (e # xs) bd bf = matchFormatInfo a b xs bd2 bf2"
      using False
      by (simp add: e Let_def d1_def bf1_def bd1_def d2_def bf2_def bd2_def)
    have "(bd2 \<le> 3 \<longrightarrow> bf2 = Some fi) \<and> ((bits, fi) \<in> set xs \<or> bd2 \<le> 3)"
    proof (cases "bits' = bits")
      case True
      then have fi: "fi' = fi" and d: "d1 \<le> 3" "d2 \<le> 3"
        using same near by (simp_all add: d1_def d2_def)
      have 1: "bd1 \<le> 3 \<and> bf1 = Some fi"
      proof (cases "enat d1 < bd")
        case True
        with d fi show ?thesis
          by (simp add: bd1_def bf1_def numeral_eq_enat)
      next
        case False
        then have "bd \<le> enat d1" by simp
        also have "enat d1 \<le> 3" using d by (simp add: numeral_eq_enat)
        finally have "bd \<le> 3" .
        with Cons.prems(2) False show ?thesis by (simp add: bd1_def bf1_def)
      qed
      have "bd2 \<le> 3 \<and> bf2 = Some fi"
        using 1 d fi by (auto simp add: bd2_def bf2_def numeral_eq_enat)
      then show ?thesis by simp
    next
      case False
      from other [OF this] have d: "4 \<le> d1" "4 \<le> d2" by (simp_all add: d1_def d2_def)
      have 1: "(bd1 \<le> 3 \<longrightarrow> bf1 = Some fi) \<and> (bd1 \<le> 3 \<longrightarrow> bd \<le> 3)"
        using d Cons.prems(2) by (auto simp add: bd1_def bf1_def numeral_eq_enat)
      have 2: "(bd2 \<le> 3 \<longrightarrow> bf2 = Some fi) \<and> (bd2 \<le> 3 \<longrightarrow> bd1 \<le> 3)"
        using d 1 by (auto simp add: bd2_def bf2_def numeral_eq_enat)
      from Cons.prems(3) False e have "(bits, fi) \<in> set xs \<or> bd \<le> 3" by auto
      then have "(bits, fi) \<in> set xs \<or> bd2 \<le> 3"
      proof
        assume "(bits, fi) \<in> set xs" then show ?thesis ..
      next
        assume bd: "bd \<le> 3"
        from bd obtain k where k: "bd = enat k" "k \<le> 3"
          by (cases bd) (simp_all add: numeral_eq_enat)
        have "bd1 = bd" using d k by (simp add: bd1_def)
        moreover have "bd2 = bd1" using d k \<open>bd1 = bd\<close> by (simp add: bd2_def)
        ultimately show ?thesis using bd by simp
      qed
      with 2 show ?thesis by simp
    qed
    then show ?thesis
      using Cons.IH [OF rest, of bd2 bf2] unfold by simp
  qed
qed

text \<open>
  C6. For every entry of the 32-entry table: when each of the two copies read from the
  matrix is the entry's 15-bit word with at most 3 bits flipped (the two copies may be
  corrupted differently), \<open>readFormatInformation\<close> returns that entry. The proof rests
  on the distance of the table (two entries with different bits differ in at least 7
  positions, \<open>FORMAT_INFO_TABLE_distance\<close>) and the triangle inequality.
\<close>

theorem format_info_robust:
  assumes entry: "(bits, formatInfo) \<in> set FORMAT_INFO_TABLE"
    and ps: "length ps \<le> 3" and qs: "length qs \<le> 3"
    and tl: "topLeftFormatInfoBits m = flipBits bits ps"
    and tr: "topRightBottomRightFormatInfoBits m = flipBits bits qs"
  shows "readFormatInformation m = Some formatInfo"
proof -
  define a where "a = flipBits bits ps"
  define b where "b = flipBits bits qs"
  have na: "numBitsDiffering a bits \<le> 3"
    using numBitsDiffering_flipBits [of bits ps bits] ps by (simp add: a_def)
  have nb: "numBitsDiffering b bits \<le> 3"
    using numBitsDiffering_flipBits [of bits qs bits] qs by (simp add: b_def)
  have far: "\<forall>(bits', fi') \<in> set FORMAT_INFO_TABLE.
        (bits' = bits \<longrightarrow> fi' = formatInfo)
        \<and> (bits' \<noteq> bits \<longrightarrow> 4 \<le> numBitsDiffering a bits' \<and> 4 \<le> numBitsDiffering b bits')"
  proof (clarify, intro conjI impI)
    fix bits' fi'
    assume e': "(bits', fi') \<in> set FORMAT_INFO_TABLE"
    { assume "bits' = bits"
      with e' entry FORMAT_INFO_TABLE_distinct show "fi' = formatInfo"
        by (auto dest: eq_key_imp_eq_value) }
    assume ne: "bits' \<noteq> bits"
    from FORMAT_INFO_TABLE_distance [OF entry e'] ne
    have 7: "7 \<le> numBitsDiffering bits bits'" by auto
    from numBitsDiffering_triangle [of bits bits' a] na 7
    show "4 \<le> numBitsDiffering a bits'" by (simp add: numBitsDiffering_commute [of bits a])
    from numBitsDiffering_triangle [of bits bits' b] nb 7
    show "4 \<le> numBitsDiffering b bits'" by (simp add: numBitsDiffering_commute [of bits b])
  qed
  have "matchFormatInfo a b FORMAT_INFO_TABLE \<infinity> None = Some formatInfo"
    by (rule matchFormatInfo_nearest [OF na nb far]) (use entry in simp_all)
  then show ?thesis by (simp add: readFormatInformation_def tl tr a_def b_def)
qed


theorem format_info_robust_witness:
  "readFormatInformation
     \<lparr>data = fold (\<lambda>i d. d[i := 1]) [8, 29, 71, 92, 168, 170, 172, 184, 187, 344, 386] (replicate 441 0),
      width = 21, height = 21\<rparr>
   = Some \<lparr>errorCorrectionLevel = 1, dataMask = 0\<rparr>"
  using format_info_robust [of "0x5412" "\<lparr>errorCorrectionLevel = 1, dataMask = 0\<rparr>"
      "[0, 3]" "[14]"
      "\<lparr>data = fold (\<lambda>i d. d[i := 1]) [8, 29, 71, 92, 168, 170, 172, 184, 187, 344, 386] (replicate 441 0),
        width = 21, height = 21\<rparr>"]
  by (simp add: FORMAT_INFO_TABLE_def flipBits_def topLeftFormatInfoBits_def
      topRightBottomRightFormatInfoBits_def get_def pushBit_def upto.simps Let_def)

subsection \<open>The bit stream\<close>

lemma readBits_bitOffset:
  assumes "readBits numBits s = Inr (v, s')" and "0 \<le> bitOffset s" and "bitOffset s < 8"
  shows "0 \<le> bitOffset s' \<and> bitOffset s' < 8"
proof -
  from assms(1) have ok: "1 \<le> numBits"
    by (auto simp add: readBits_def split: if_splits)
  define toRead where
    "toRead = (if numBits < 8 - bitOffset s then numBits else 8 - bitOffset s)"
  define s1 where "s1 = (if bitOffset s > 0 then
      (let t = s\<lparr>bitOffset := bitOffset s + toRead\<rparr>
       in if bitOffset t = 8 then t\<lparr>bitOffset := 0, byteOffset := byteOffset t + 1\<rparr> else t)
     else s)"
  define n1 where "n1 = (if bitOffset s > 0 then numBits - toRead else numBits)"
  have b1: "0 \<le> bitOffset s1 \<and> bitOffset s1 < 8 \<and> 0 \<le> n1 \<and> (0 < n1 \<longrightarrow> bitOffset s1 = 0)"
    using assms(2,3) ok by (auto simp add: s1_def n1_def toRead_def Let_def)
  obtain r b n where rw: "readWhole (bytes s1) (byteOffset s1) n1
      (if bitOffset s > 0
       then drop_bit (nat (8 - bitOffset s - toRead))
             (byteAt (bytes s) (byteOffset s)
              AND push_bit (nat (8 - bitOffset s - toRead)) (drop_bit (nat (8 - toRead)) 0xff))
       else 0) = (r, b, n)"
    by (cases "readWhole (bytes s1) (byteOffset s1) n1
      (if bitOffset s > 0
       then drop_bit (nat (8 - bitOffset s - toRead))
             (byteAt (bytes s) (byteOffset s)
              AND push_bit (nat (8 - bitOffset s - toRead)) (drop_bit (nat (8 - toRead)) 0xff))
       else 0)") auto
  from readWhole_offsets [OF rw] b1 have n: "0 \<le> n" "n < 8" by simp_all
  define s2 where "s2 = (if n1 > 0 then
       (if n > 0 then s1\<lparr>byteOffset := b, bitOffset := bitOffset s1 + n\<rparr>
        else s1\<lparr>byteOffset := b\<rparr>)
     else s1)"
  have s': "s' = s2"
    using assms(1) ok rw
    by (auto simp add: readBits_def Let_def s2_def s1_def n1_def toRead_def split: if_splits)
  show ?thesis using b1 n by (auto simp add: s' s2_def)
qed

subsection \<open>Stream underflow in the segment decoder\<close>

lemma readBits_nonneg:
  "readBits n s = Inr (v, s') \<Longrightarrow> 0 \<le> available s'"
  using readBits_available [of n s v s']
  by (auto simp add: readBits_def split: if_splits)

lemma readBits_error:
  "readBits n s = Inl e \<Longrightarrow> e = CantRead n"
  by (auto simp add: readBits_def Let_def split: if_splits prod.splits)

lemma decodeByteLoop_underflow:
  "i < len \<Longrightarrow> available s < 8 * (len - i) \<Longrightarrow> decodeByteLoop i len s bs = Inl (CantRead 8)"
proof (induction i len s bs rule: decodeByteLoop.induct)
  case (1 i len s bs)
  show ?case
  proof (cases "readBits 8 s")
    case (Inl e)
    then have "e = CantRead 8" by (rule readBits_error)
    with Inl 1(2) show ?thesis by (simp add: decodeByteLoop.simps [of i len s bs])
  next
    case (Inr p)
    obtain b s1 where p: "p = (b, s1)" by (cases p)
    from Inr p have r: "readBits 8 s = Inr (b, s1)" by simp
    from readBits_available [OF r] readBits_nonneg [OF r] 1(3)
    have "available s1 < 8 * (len - (i + 1))" "i + 1 < len" by auto
    from 1(1) [OF 1(2) r refl this(2) this(1)] r 1(2)
    show ?thesis by (simp add: decodeByteLoop.simps [of i len s bs])
  qed
qed

lemma decodeKanjiLoop_underflow:
  "i < len \<Longrightarrow> available s < 13 * (len - i)
     \<Longrightarrow> decodeKanjiLoop table i len s bs str = Inl (CantRead 13)"
proof (induction table i len s bs str rule: decodeKanjiLoop.induct)
  case (1 table i len s bs str)
  show ?case
  proof (cases "readBits 13 s")
    case (Inl e)
    then have "e = CantRead 13" by (rule readBits_error)
    with Inl 1(2) show ?thesis by (simp add: decodeKanjiLoop.simps [of table i len s bs str])
  next
    case (Inr p)
    obtain k s1 where p: "p = (k, s1)" by (cases p)
    from Inr p have r: "readBits 13 s = Inr (k, s1)" by simp
    from readBits_available [OF r] readBits_nonneg [OF r] 1(3)
    have "available s1 < 13 * (len - (i + 1))" "i + 1 < len" by auto
    from 1(1) [OF 1(2) r refl this(2) this(1)] r 1(2)
    show ?thesis by (simp add: decodeKanjiLoop.simps [of table i len s bs str])
  qed
qed

lemma decodeNumericLoop_underflow:
  "0 \<le> available s \<Longrightarrow> available s < segmentBodyBits 1 len \<Longrightarrow>
     (case decodeNumericLoop len s bs of
        Inl e \<Rightarrow> True
      | Inr (len', s', bs') \<Rightarrow>
          (len' = 2 \<and> available s' < 7) \<or> (len' = 1 \<and> available s' < 4))"
proof (induction len s bs rule: decodeNumericLoop.induct)
  case (1 len s bs)
  show ?case
  proof (cases "len \<ge> 3")
    case False
    have "len mod 3 = len" if "0 \<le> len" using that False by simp
    moreover have "0 \<le> len"
    proof (rule ccontr)
      assume "\<not> 0 \<le> len"
      then have "len div 3 \<le> - 1" by simp
      with 1(2,3) show False by (simp add: segmentBodyBits_def split: if_splits)
    qed
    ultimately have m: "len mod 3 = len" "len div 3 = 0" using False by simp_all
    with 1(2,3) have "(len = 2 \<and> available s < 7) \<or> (len = 1 \<and> available s < 4)"
      by (simp add: segmentBodyBits_def split: if_splits)
    moreover have "decodeNumericLoop len s bs = Inr (len, s, bs)"
      using False by (simp add: decodeNumericLoop.simps [of len s bs])
    ultimately show ?thesis by simp
  next
    case True
    show ?thesis
    proof (cases "readBits 10 s")
      case (Inl e)
      with True show ?thesis by (simp add: decodeNumericLoop.simps [of len s bs])
    next
      case (Inr p)
      obtain num s1 where p: "p = (num, s1)" by (cases p)
      from Inr p have r: "readBits 10 s = Inr (num, s1)" by simp
      show ?thesis
      proof (cases "num \<ge> 1000")
        case True
        with r \<open>len \<ge> 3\<close> show ?thesis by (simp add: decodeNumericLoop.simps [of len s bs])
      next
        case False
        have "(len - 3 + 3) div 3 = (len - 3) div 3 + 1" by (rule div_add_self2) simp
        moreover have "(len - 3 + 3) mod 3 = (len - 3) mod 3" by (rule mod_add_self2)
        ultimately have d: "(len - 3) div 3 = len div 3 - 1" "(len - 3) mod 3 = len mod 3"
          by simp_all
        from readBits_available [OF r] 1(3)
        have "available s1 < segmentBodyBits 1 (len - 3)"
          by (auto simp add: segmentBodyBits_def d split: if_splits)
        from 1(1) [OF True r refl False refl refl refl readBits_nonneg [OF r] this] r True False
        show ?thesis by (simp add: decodeNumericLoop.simps [of len s bs] Let_def)
      qed
    qed
  qed
qed


lemma decodeAlphanumericLoop_underflow:
  "0 \<le> available s \<Longrightarrow> available s < segmentBodyBits 2 len \<Longrightarrow>
     (case decodeAlphanumericLoop len s bs of
        Inl e \<Rightarrow> True
      | Inr (len', s', bs') \<Rightarrow> len' = 1 \<and> available s' < 6)"
proof (induction len s bs rule: decodeAlphanumericLoop.induct)
  case (1 len s bs)
  show ?case
  proof (cases "len \<ge> 2")
    case False
    have "0 \<le> len"
    proof (rule ccontr)
      assume "\<not> 0 \<le> len"
      then have "len div 2 \<le> - 1" by simp
      moreover have "len mod 2 \<le> 1" by simp
      ultimately show False using 1(2,3) by (simp add: segmentBodyBits_def)
    qed
    with False have "len = 0 \<or> len = 1" by auto
    with 1(2,3) have "len = 1 \<and> available s < 6"
      by (auto simp add: segmentBodyBits_def)
    moreover have "decodeAlphanumericLoop len s bs = Inr (len, s, bs)"
      using False by (simp add: decodeAlphanumericLoop.simps [of len s bs])
    ultimately show ?thesis by simp
  next
    case True
    show ?thesis
    proof (cases "readBits 11 s")
      case (Inl e)
      with True show ?thesis by (simp add: decodeAlphanumericLoop.simps [of len s bs])
    next
      case (Inr p)
      obtain v s1 where p: "p = (v, s1)" by (cases p)
      from Inr p have r: "readBits 11 s = Inr (v, s1)" by simp
      have "(len - 2 + 2) div 2 = (len - 2) div 2 + 1" by (rule div_add_self2) simp
      moreover have "(len - 2 + 2) mod 2 = (len - 2) mod 2" by (rule mod_add_self2)
      ultimately have d: "(len - 2) div 2 = len div 2 - 1" "(len - 2) mod 2 = len mod 2"
        by simp_all
      from readBits_available [OF r] 1(3)
      have av: "available s1 < segmentBodyBits 2 (len - 2)"
        by (simp add: segmentBodyBits_def d)
      show ?thesis
      proof (cases "alphanumericCode (v div 45)")
        case (Inl e)
        with r True show ?thesis by (simp add: decodeAlphanumericLoop.simps [of len s bs])
      next
        case a: (Inr ca)
        show ?thesis
        proof (cases "alphanumericCode (v mod 45)")
          case (Inl e)
          with r a True show ?thesis by (simp add: decodeAlphanumericLoop.simps [of len s bs])
        next
          case b: (Inr cb)
          from 1(1) [OF True r refl a b readBits_nonneg [OF r] av] r a b True
          show ?thesis by (simp add: decodeAlphanumericLoop.simps [of len s bs])
        qed
      qed
    qed
  qed
qed

text \<open>A stream that ends inside a segment makes the decoder of the segment throw.\<close>

lemma segment_underflow:
  assumes mode: "mode \<in> {1, 2, 4, 8}"
    and under: "available s1 < characterCountSize mode sz
      \<or> (\<exists>n s2. readBits (characterCountSize mode sz) s1 = Inr (n, s2)
             \<and> available s2 < segmentBodyBits mode n)"
  shows "\<exists>e. decodeSegment table sz mode s1 r = Inl e"
proof -
  from under show ?thesis
  proof
    assume "available s1 < characterCountSize mode sz"
    from readBits_underflow [OF this] mode show ?thesis
      by (auto simp add: decodeSegment_def characterCountSize_def decodeNumeric_def
          decodeAlphanumeric_def decodeByte_def decodeKanji_def)
  next
    assume "\<exists>n s2. readBits (characterCountSize mode sz) s1 = Inr (n, s2)
             \<and> available s2 < segmentBodyBits mode n"
    then obtain n s2 where r: "readBits (characterCountSize mode sz) s1 = Inr (n, s2)"
      and av: "available s2 < segmentBodyBits mode n" by blast
    note nn = readBits_nonneg [OF r]
    from mode consider "mode = 1" | "mode = 2" | "mode = 4" | "mode = 8" by auto
    then show ?thesis
    proof cases
      case 1
      from decodeNumericLoop_underflow [OF nn, of n "[]"] av 1
      have "case decodeNumericLoop n s2 [] of
        Inl e \<Rightarrow> True
      | Inr (len', s', bs') \<Rightarrow>
          (len' = 2 \<and> available s' < 7) \<or> (len' = 1 \<and> available s' < 4)" by simp
      then have "\<exists>e. decodeNumeric sz s1 = Inl e"
        using r 1
        by (auto simp add: decodeNumeric_def characterCountSize_def readBits_underflow
            split: sum.splits)
      with 1 show ?thesis by (auto simp add: decodeSegment_def)
    next
      case 2
      from decodeAlphanumericLoop_underflow [OF nn, of n "[]"] av 2
      have "case decodeAlphanumericLoop n s2 [] of
        Inl e \<Rightarrow> True
      | Inr (len', s', bs') \<Rightarrow> len' = 1 \<and> available s' < 6" by simp
      then have "\<exists>e. decodeAlphanumeric sz s1 = Inl e"
        using r 2
        by (auto simp add: decodeAlphanumeric_def characterCountSize_def readBits_underflow
            split: sum.splits)
      with 2 show ?thesis by (auto simp add: decodeSegment_def)
    next
      case 3
      from av nn 3 have "0 < n" "available s2 < 8 * (n - 0)"
        by (simp_all add: segmentBodyBits_def)
      from decodeByteLoop_underflow [OF this, of "[]"] r 3
      have "decodeByte sz s1 = Inl (CantRead 8)"
        by (simp add: decodeByte_def characterCountSize_def)
      with 3 show ?thesis by (auto simp add: decodeSegment_def)
    next
      case 4
      from av nn 4 have "0 < n" "available s2 < 13 * (n - 0)"
        by (simp_all add: segmentBodyBits_def)
      from decodeKanjiLoop_underflow [OF this, of table "[]" "[]"] r 4
      have "decodeKanji table sz s1 = Inl (CantRead 13)"
        by (simp add: decodeKanji_def characterCountSize_def)
      with 4 show ?thesis by (auto simp add: decodeSegment_def)
    qed
  qed
qed

text \<open>From a state the loop reaches, the rest of the loop decides the result.\<close>

lemma reached_decodeLoop:
  "reached table sz dat s r \<Longrightarrow>
     decodeLoop table sz (newBitStream dat) \<lparr>resultText = [], resultBytes = [], chunks = []\<rparr>
       = decodeLoop table sz s r"
proof (induction rule: reached.induct)
  case start
  show ?case by simp
next
  case (step s r mode s1 s2 r2)
  then show ?case by (simp add: decodeLoop.simps [of table sz s r])
qed

text \<open>
  C7 (amended). When the loop of \<open>decode$1\<close> has reached a segment boundary with some
  result gathered, the next mode indicator is Numeric, Alphanumeric, Byte or Kanji, and
  the stream ends inside that segment (fewer bits are left than the count indicator
  takes, or fewer than the body of the count just read takes), then \<open>decode$1\<close> throws:
  nothing of the gathered result is returned, and the \<open>try\<close> of \<open>decodeMatrix\<close> makes
  the outcome \<open>null\<close>.
\<close>

theorem decode_underflow_throws:
  assumes "reached table (versionSize v) dat s r"
    and "4 \<le> available s" and "readBits 4 s = Inr (mode, s1)" and "mode \<in> {1, 2, 4, 8}"
    and "available s1 < characterCountSize mode (versionSize v)
      \<or> (\<exists>n s2. readBits (characterCountSize mode (versionSize v)) s1 = Inr (n, s2)
             \<and> available s2 < segmentBodyBits mode n)"
  shows "(\<exists>e. decode1 table dat v = Inl e) \<and> decodeMatrixData table dat v = None"
proof -
  from segment_underflow [OF assms(4,5)] obtain e
    where "decodeSegment table (versionSize v) mode s1 r = Inl e" by blast
  with assms(2,3,4) have "decodeLoop table (versionSize v) s r = Inl e"
    by (auto simp add: decodeLoop.simps [of table "versionSize v" s r])
  with reached_decodeLoop [OF assms(1)] have "decode1 table dat v = Inl e"
    by (simp add: decode1_def)
  then show ?thesis by (simp add: decodeMatrixData_def)
qed

theorem decode_underflow_throws_witness:
  "reached emptyTable (versionSize 1) [0x40, 0x14, 0x14]
     \<lparr>bytes = [0x40, 0x14, 0x14], byteOffset = 2, bitOffset = 4\<rparr>
     \<lparr>resultText = [0x41], resultBytes = [0x41], chunks = [ByteChunk [0x41] [0x41]]\<rparr>
   \<and> readBits 4 \<lparr>bytes = [0x40, 0x14, 0x14], byteOffset = 2, bitOffset = 4\<rparr>
       = Inr (4, \<lparr>bytes = [0x40, 0x14, 0x14], byteOffset = 3, bitOffset = 0\<rparr>)
   \<and> available \<lparr>bytes = [0x40, 0x14, 0x14], byteOffset = 3, bitOffset = 0\<rparr>
       < characterCountSize 4 (versionSize 1)
   \<and> (\<exists>e. decode1 emptyTable [0x40, 0x14, 0x14] 1 = Inl e)
   \<and> decodeMatrixData emptyTable [0x40, 0x14, 0x14] 1 = None"
proof -
  let ?dat = "[0x40, 0x14, 0x14] :: nat list"
  let ?s = "\<lparr>bytes = ?dat, byteOffset = 2, bitOffset = 4\<rparr>"
  let ?s1 = "\<lparr>bytes = ?dat, byteOffset = 3, bitOffset = 0\<rparr>"
  let ?r = "\<lparr>resultText = [0x41], resultBytes = [0x41], chunks = [ByteChunk [0x41] [0x41]]\<rparr>"
  have a0: "4 \<le> available (newBitStream ?dat)" by code_simp
  have r0: "readBits 4 (newBitStream ?dat)
      = Inr (4, \<lparr>bytes = ?dat, byteOffset = 0, bitOffset = 4\<rparr>)" by code_simp
  have seg: "decodeSegment emptyTable (versionSize 1) 4
      \<lparr>bytes = ?dat, byteOffset = 0, bitOffset = 4\<rparr>
      \<lparr>resultText = [], resultBytes = [], chunks = []\<rparr> = Inr (?s, ?r)" by code_simp
  have reach: "reached emptyTable (versionSize 1) ?dat ?s ?r"
    by (rule reached.step [OF reached.start a0 r0 _ seg]) simp
  have a: "4 \<le> available ?s" by code_simp
  have rd: "readBits 4 ?s = Inr (4, ?s1)" by code_simp
  have under: "available ?s1 < characterCountSize 4 (versionSize 1)" by code_simp
  have m: "(4::int) \<in> {1, 2, 4, 8}" by simp
  from decode_underflow_throws [OF reach a rd m disjI1 [OF under]] reach rd under
  show ?thesis by simp
qed

text \<open>
  The claim as stated fails. The three bytes \<open>40 14 10\<close> hold a Byte segment with the
  one byte \<open>0x41\<close> and a terminator, and decode to that chunk. In \<open>40 14 14\<close> the last
  four bits are the mode indicator of a second Byte segment whose count indicator is
  missing: \<open>decode$1\<close> throws instead of returning the first chunk, and the outcome of
  \<open>decodeMatrix\<close> is \<open>null\<close>.
\<close>

theorem decode_underflow_discards_chunks:
  "decode1 emptyTable [0x40, 0x14, 0x10] 1
     = Inr (Some \<lparr>resultText = [0x41], resultBytes = [0x41],
                  chunks = [ByteChunk [0x41] [0x41]]\<rparr>)
   \<and> decode1 emptyTable [0x40, 0x14, 0x14] 1 = Inl (CantRead 8)
   \<and> decodeMatrixData emptyTable [0x40, 0x14, 0x14] 1 = None"
  by code_simp

subsection \<open>Penalty rule 1\<close>

lemma fold_plus_sum_list:
  "fold (\<lambda>x (s::int). s + f x) xs a = a + sum_list (map f xs)"
  by (induction xs arbitrary: a) simp_all

lemma sum_list_upto_int: "sum_list (map f [i..j]) = sum f {i..j}" for i j :: int
  using sum_set_upto_conv_sum_list_int [of f i j] by simp

text \<open>The indicator of one offset of the window.\<close>

lemma sameCount_inner:
  "fold (\<lambda>c sameCount.
          if col + c < 0 \<or> n \<le> col + c then sameCount
          else if r = 0 \<and> c = 0 then sameCount
          else if dark = isDark q (row + r) (col + c) then sameCount + 1
          else sameCount) cs (s::int)
   = s + (\<Sum>c \<leftarrow> cs. if 0 \<le> col + c \<and> col + c < n \<and> (r, c) \<noteq> (0, 0)
              \<and> isDark q (row + r) (col + c) = dark then 1 else 0)"
  by (induction cs arbitrary: s) auto

lemma sameCount_outer:
  "fold (\<lambda>r sameCount.
          if (row::int) + r < 0 \<or> n \<le> row + r then sameCount
          else sameCount + g r) rs (s::int)
   = s + (\<Sum>r \<leftarrow> rs. if 0 \<le> row + r \<and> row + r < n then g r else 0)"
  by (induction rs arbitrary: s) auto

lemma sameCountAt_sum:
  "sameCountAt q row col =
     (\<Sum>r \<leftarrow> [- 1, 0, 1]. \<Sum>c \<leftarrow> [- 1, 0, 1].
        if 0 \<le> row + r \<and> row + r < moduleCount q \<and> 0 \<le> col + c \<and> col + c < moduleCount q
           \<and> (r, c) \<noteq> (0, 0) \<and> isDark q (row + r) (col + c) = isDark q row col
        then 1 else 0)"
proof -
  have "sameCountAt q row col =
      fold (\<lambda>r sameCount.
          if row + r < 0 \<or> moduleCount q \<le> row + r then sameCount
          else sameCount + (\<Sum>c \<leftarrow> [- 1, 0, 1].
              if 0 \<le> col + c \<and> col + c < moduleCount q \<and> (r, c) \<noteq> (0, 0)
                 \<and> isDark q (row + r) (col + c) = isDark q row col then 1 else 0))
        [- 1, 0, 1] 0"
    unfolding sameCountAt_def Let_def sameCount_inner ..
  also have "\<dots> = (\<Sum>r \<leftarrow> [- 1, 0, 1].
        if 0 \<le> row + r \<and> row + r < moduleCount q
        then (\<Sum>c \<leftarrow> [- 1, 0, 1].
              if 0 \<le> col + c \<and> col + c < moduleCount q \<and> (r, c) \<noteq> (0, 0)
                 \<and> isDark q (row + r) (col + c) = isDark q row col then 1 else 0)
        else 0)"
    unfolding sameCount_outer by simp
  also have "\<dots> = (\<Sum>r \<leftarrow> [- 1, 0, 1]. \<Sum>c \<leftarrow> [- 1, 0, 1].
        if 0 \<le> row + r \<and> row + r < moduleCount q \<and> 0 \<le> col + c \<and> col + c < moduleCount q
           \<and> (r, c) \<noteq> (0, 0) \<and> isDark q (row + r) (col + c) = isDark q row col
        then 1 else 0)"
    by (intro arg_cong [where f = sum_list] map_cong refl) auto
  finally show ?thesis .
qed


lemma sameCountAt_card: "sameCountAt q row col = int (card (sameNeighbours q row col))"
proof -
  define P where "P = (\<lambda>(r, c). 0 \<le> row + r \<and> row + r < moduleCount q
        \<and> 0 \<le> col + c \<and> col + c < moduleCount q
        \<and> (r, c) \<noteq> (0, 0::int) \<and> isDark q (row + r) (col + c) = isDark q row col)"
  have set: "sameNeighbours q row col = {p \<in> {- 1, 0, 1} \<times> {- 1, 0, 1}. P p}"
    by (auto simp add: sameNeighbours_def P_def)
  have d: "distinct [- 1, 0, 1::int]" by simp
  have s3: "set [- 1, 0, 1::int] = {- 1, 0, 1}" by simp
  have "sameCountAt q row col
      = (\<Sum>r \<leftarrow> [- 1, 0, 1]. \<Sum>c \<leftarrow> [- 1, 0, 1]. if P (r, c) then 1 else 0)"
    unfolding sameCountAt_sum P_def by simp
  also have "\<dots> = (\<Sum>r \<in> {- 1, 0, 1}. \<Sum>c \<in> {- 1, 0, 1}. if P (r, c) then 1 else 0)"
    unfolding sum_list_distinct_conv_sum_set [OF d] s3 ..
  also have "\<dots> = (\<Sum>p \<in> {- 1, 0, 1} \<times> {- 1, 0, 1}. if P p then 1 else 0)"
    by (simp only: sum.cartesian_product split_def fst_conv snd_conv prod.collapse)
  also have "\<dots> = int (card {p \<in> {- 1, 0, 1} \<times> {- 1, 0, 1}. P p})"
  proof -
    have "finite ({- 1, 0, 1::int} \<times> {- 1, 0, 1::int})" by simp
    then show ?thesis by (simp add: sum.If_cases Int_def)
  qed
  finally show ?thesis by (simp add: set)
qed

lemma penaltyRule1_sum:
  "penaltyRule1 q =
     (\<Sum>row = 0..moduleCount q - 1. \<Sum>col = 0..moduleCount q - 1.
        (let k = int (card (sameNeighbours q row col)) in if k > 5 then 3 + (k - 5) else 0))"
proof -
  have inner: "(\<lambda>col score. (let sameCount = sameCountAt q row col
            in if sameCount > 5 then score + (3 + sameCount - 5) else score))
      = (\<lambda>col score. score + (let k = int (card (sameNeighbours q row col))
            in if k > 5 then 3 + (k - 5) else 0))" for row
    by (intro ext) (simp add: Let_def sameCountAt_card)
  show ?thesis
    unfolding penaltyRule1_def inner fold_plus_sum_list sum_list_upto_int by simp
qed

text \<open>
  C5 (amended). Penalty rule 1 of the score looks at every module, counts the modules
  of the same colour among its up to eight neighbours inside the matrix (the 3 by 3
  window around it), and, when more than five of them have the same colour, adds 3 plus
  the count beyond five.
\<close>

theorem penaltyRule1_neighbours:
  "penaltyRule1 q =
     (\<Sum>row = 0..moduleCount q - 1. \<Sum>col = 0..moduleCount q - 1.
        (let k = int (card (sameNeighbours q row col)) in if k > 5 then 3 + (k - 5) else 0))"
  by (rule penaltyRule1_sum)

text \<open>The striped matrix: the code's rule 1 finds nothing, the rows are full runs.\<close>

lemma moduleCount_stripes [simp]: "moduleCount (stripes n) = int n"
  by (simp add: stripes_def)

lemma isDark_stripes:
  "isDark (stripes n) row col
     = (0 \<le> row \<and> row < int n \<and> 0 \<le> col \<and> col < int n \<and> even row)"
proof (cases "0 \<le> row \<and> row < int n \<and> 0 \<le> col \<and> col < int n")
  case True
  then have r: "nat row < n" and c: "nat col < n" by auto
  from True have "even (nat row) = even row" by (simp add: even_nat_iff)
  with True r c show ?thesis
    by (simp add: isDark_def stripes_def newQRCode_def)
next
  case False
  then show ?thesis
    by (auto simp add: isDark_def stripes_def newQRCode_def)
qed

lemma sameNeighbours_stripes:
  assumes "0 \<le> row" "row < int n" "0 \<le> col" "col < int n"
  shows "sameNeighbours (stripes n) row col \<subseteq> {(0, - 1), (0, 1)}"
proof -
  have odd: "even (row + r) \<noteq> even row" if "r = - 1 \<or> r = 1" for r
    using that by auto
  show ?thesis
    using assms odd
    by (auto simp add: sameNeighbours_def isDark_stripes)
qed

lemma penaltyRule1_stripes: "penaltyRule1 (stripes n) = 0"
proof -
  have "(let k = int (card (sameNeighbours (stripes n) row col))
         in if k > 5 then 3 + (k - 5) else 0) = 0"
    if "row \<in> {0..int n - 1}" "col \<in> {0..int n - 1}" for row col
  proof -
    from that have sub: "sameNeighbours (stripes n) row col \<subseteq> {(0, - 1), (0, 1)}"
      by (intro sameNeighbours_stripes) auto
    have "card (sameNeighbours (stripes n) row col) \<le> card {(0::int, - 1::int), (0, 1)}"
      by (rule card_mono) (use sub in simp_all)
    then have "card (sameNeighbours (stripes n) row col) \<le> 2" by simp
    then show ?thesis by (simp add: Let_def)
  qed
  then show ?thesis
    unfolding penaltyRule1_sum by simp
qed

lemma runLengths_replicate: "runLengths (replicate (Suc k) b) = [Suc k]"
proof (induction k)
  case 0
  show ?case by simp
next
  case (Suc k)
  have "runLengths (replicate (Suc (Suc k)) b) = runLengths (b # b # replicate k b)" by simp
  also have "\<dots> = (case runLengths (b # replicate k b) of [] \<Rightarrow> [1] | n # ns \<Rightarrow> Suc n # ns)"
    by simp
  also have "\<dots> = [Suc (Suc k)]" using Suc by simp
  finally show ?case .
qed

lemma runPenalty_replicate: "4 \<le> k \<Longrightarrow> runPenalty (replicate (Suc k) b) = int k - 1"
  unfolding runPenalty_def runLengths_replicate by simp

lemma runLengths_distinct_adj:
  "distinct_adj xs \<Longrightarrow> runLengths xs = replicate (length xs) 1"
  by (induction xs rule: runLengths.induct) simp_all

lemma distinct_adj_even_upto: "distinct_adj (map even [i..j])" for i j :: int
proof (induction i j rule: upto.induct)
  case (1 i j)
  show ?case
  proof (cases "i \<le> j")
    case False
    then show ?thesis by simp
  next
    case True
    show ?thesis
    proof (cases "i + 1 \<le> j")
      case False
      with True have "[i..j] = [i]" by (simp add: upto.simps [of i j] upto.simps [of "i + 1" j])
      then show ?thesis by simp
    next
      case t: True
      have "[i..j] = i # (i + 1) # [i + 1 + 1..j]"
        using True t by (simp add: upto.simps [of i j] upto.simps [of "i + 1" j])
      moreover from this 1 [OF True] have "distinct_adj (map even ((i + 1) # [i + 1 + 1..j]))"
        using t by (simp add: upto.simps [of "i + 1" j])
      ultimately show ?thesis by simp
    qed
  qed
qed

lemma runPenalty_ones: "runPenalty (map f xs) = 0" if "distinct_adj (map f xs)"
proof -
  have "runLengths (map f xs) = replicate (length xs) 1"
    using runLengths_distinct_adj [OF that] by simp
  then show ?thesis by (simp add: runPenalty_def sum_list_replicate)
qed

lemma rule1ByRuns_stripes:
  assumes "5 \<le> n"
  shows "rule1ByRuns (stripes n) = int n * (int n - 2)"
proof -
  from assms obtain k where k: "n = Suc k" by (cases n) auto
  have len: "length [0..int n - 1] = n" by simp
  have row: "runPenalty (map (\<lambda>col. isDark (stripes n) row col) [0..int n - 1]) = int n - 2"
    if "row \<in> set [0..int n - 1]" for row
  proof -
    have "map (\<lambda>col. isDark (stripes n) row col) [0..int n - 1]
        = map (\<lambda>col. even row) [0..int n - 1]"
      using that by (intro map_cong refl) (auto simp add: isDark_stripes)
    also have "\<dots> = replicate n (even row)"
      by (simp add: map_replicate_const)
    finally have "map (\<lambda>col. isDark (stripes n) row col) [0..int n - 1]
        = replicate (Suc k) (even row)" by (simp only: k)
    then have "runPenalty (map (\<lambda>col. isDark (stripes n) row col) [0..int n - 1]) = int k - 1"
      using assms runPenalty_replicate [of k "even row"] by (simp only: k)
    then show ?thesis by (simp add: k)
  qed
  have col: "runPenalty (map (\<lambda>row. isDark (stripes n) row col) [0..int n - 1]) = 0"
    if "col \<in> set [0..int n - 1]" for col
  proof -
    have m: "map (\<lambda>row. isDark (stripes n) row col) [0..int n - 1] = map even [0..int n - 1]"
      using that by (intro map_cong refl) (auto simp add: isDark_stripes)
    show ?thesis
      unfolding m by (rule runPenalty_ones [OF distinct_adj_even_upto])
  qed
  have "(\<Sum>row \<leftarrow> [0..int n - 1].
          runPenalty (map (\<lambda>col. isDark (stripes n) row col) [0..int n - 1]))
      = (\<Sum>row \<leftarrow> [0..int n - 1]. int n - 2)"
    by (intro arg_cong [where f = sum_list] map_cong refl row)
  moreover have "(\<Sum>col \<leftarrow> [0..int n - 1].
          runPenalty (map (\<lambda>row. isDark (stripes n) row col) [0..int n - 1]))
      = (\<Sum>col \<leftarrow> [0..int n - 1]. 0)"
    by (intro arg_cong [where f = sum_list] map_cong refl col)
  ultimately show ?thesis
    by (simp add: rule1ByRuns_def sum_list_triv len)
qed

text \<open>
  The claim as stated fails. In the 21 by 21 matrix of horizontal stripes every row is
  one run of 21 modules, which by runs costs \<open>3 + (21 - 5)\<close> per row, 399 in all; the
  code's rule 1 adds nothing, since no module has more than two neighbours of its colour.
\<close>

theorem rule1_not_by_runs:
  "penaltyRule1 (stripes 21) = 0 \<and> rule1ByRuns (stripes 21) = 399"
  using penaltyRule1_stripes [of 21] rule1ByRuns_stripes [of 21] by simp

end
